theory Spec2Isabelle
  imports Main "HOL-Library.AList"
begin

section \<open>The RTSP session manager (\<open>server/rtsp-service.ts\<close>)\<close>

text \<open>
  The service keeps one \<open>StreamSession\<close> object per spawned ffmpeg process, a registry
  \<open>sessions\<close> from session identifiers to these objects, and for every watcher a
  \<open>PassThrough\<close> stream. Objects are mutable and shared by reference in the source (the
  handlers of a process close over their \<open>session\<close> object, the registry may meanwhile
  point to another object with the same identifier), so the model keeps three stores,
  each a list indexed by the object's reference, and handlers take the reference of the
  object they were registered for. All handlers run to completion on one thread; an
  execution is a sequence of events.

  Logging, the diagnostic dump of the init segment to \<open>tmp/\<close> (whose failures are
  caught), the counters \<open>stdoutChunkCount\<close> and \<open>loggedFirstChunk\<close> (used for logging
  only) and the notifications emitted by the service itself (\<open>stream-started\<close>, ...) leave
  the state below untouched and are not modelled.
\<close>

subsection \<open>Buffers\<close>

type_synonym buffer = "char list"

text \<open>\<open>Buffer.indexOf(string)\<close>: the offset of the first occurrence, or \<open>-1\<close>.\<close>

fun indexOf_from :: "buffer \<Rightarrow> buffer \<Rightarrow> nat \<Rightarrow> int" where
  "indexOf_from [] pat i = (if pat = [] then int i else - 1)"
| "indexOf_from (x # xs) pat i =
     (if take (length pat) (x # xs) = pat then int i else indexOf_from xs pat (Suc i))"

definition indexOf :: "buffer \<Rightarrow> buffer \<Rightarrow> int" where
  "indexOf buf pat = indexOf_from buf pat 0"

definition INIT_TIMEOUT_MS :: nat where
  "INIT_TIMEOUT_MS = 3000"

definition MAX_PREINIT_BYTES :: nat where
  "MAX_PREINIT_BYTES = 5 * 1024 * 1024"

subsection \<open>Objects\<close>

text \<open>
  A \<open>PassThrough\<close> of Node's stream library, as far as the service uses it: \<open>write\<close>
  queues a chunk unless the writable side was ended, \<open>end\<close> ends the writable side,
  \<open>destroy\<close> (called by the transport layer when a watcher leaves) sets \<open>destroyed\<close>.
  \<open>cleanupSession\<close> is the session captured by the \<open>cleanup\<close> listener that
  \<open>getStreamData\<close> registers for \<open>close\<close>, \<open>end\<close>, \<open>error\<close> and \<open>finish\<close>.
\<close>

record PassThrough =
  destroyed :: bool
  writableEnded :: bool
  written :: "buffer list"
  cleanupSession :: nat

record ChildProcess =
  killed :: bool

record StreamSession =
  session_id :: string
  rtspUrl :: string
  process :: "nat option"
  source :: "nat option"
  isActive :: bool
  clientCount :: int
  clients :: "nat list"
  preInitChunks :: "buffer list"
  preInitSize :: nat
  initBuffer :: "buffer option"
  initTimer :: "unit option"

record RTSPService =
  sessions :: "(string \<times> nat) list"
  sessionObjs :: "StreamSession list"
  clientObjs :: "PassThrough list"
  procObjs :: "ChildProcess list"

definition newService :: RTSPService where
  "newService = \<lparr>sessions = [], sessionObjs = [], clientObjs = [], procObjs = []\<rparr>"

subsection \<open>Streams and the set of clients\<close>

definition pt_write :: "PassThrough \<Rightarrow> buffer \<Rightarrow> PassThrough" where
  "pt_write c b = (if writableEnded c then c else c\<lparr>written := written c @ [b]\<rparr>)"

definition pt_end :: "PassThrough \<Rightarrow> PassThrough" where
  "pt_end c = c\<lparr>writableEnded := True\<rparr>"

text \<open>\<open>for (const c of session.clients) if (!c.destroyed) c.write(b)\<close>\<close>

fun writeClients :: "nat list \<Rightarrow> buffer \<Rightarrow> PassThrough list \<Rightarrow> PassThrough list" where
  "writeClients [] b qs = qs"
| "writeClients (c # cs) b qs =
     writeClients cs b (if \<not> destroyed (qs ! c) then qs[c := pt_write (qs ! c) b] else qs)"

text \<open>\<open>for (const c of session.clients) c.end()\<close>\<close>

fun endClients :: "nat list \<Rightarrow> PassThrough list \<Rightarrow> PassThrough list" where
  "endClients [] qs = qs"
| "endClients (c # cs) qs = endClients cs (qs[c := pt_end (qs ! c)])"

text \<open>A JavaScript \<open>Set\<close> in insertion order.\<close>

definition set_add :: "nat \<Rightarrow> nat list \<Rightarrow> nat list" where
  "set_add c cs = (if c \<in> set cs then cs else cs @ [c])"

definition set_delete :: "nat \<Rightarrow> nat list \<Rightarrow> nat list" where
  "set_delete c cs = removeAll c cs"

subsection \<open>The boundary detector\<close>

definition hasInitMarker :: "buffer \<Rightarrow> bool" where
  "hasInitMarker combined =
     (let hasFtyp = indexOf combined ''ftyp'' \<noteq> - 1;
          hasMoov = indexOf combined ''moov'' \<noteq> - 1;
          hasMoof = indexOf combined ''moof'' \<noteq> - 1
      in hasFtyp \<or> hasMoov \<or> hasMoof)"

text \<open>
  The three places that commit \<open>initBuffer\<close> do the same to the session (the timer
  callback clears the handle one statement later) and then send the block to the clients.
\<close>

definition promote :: "nat \<Rightarrow> buffer \<Rightarrow> RTSPService \<Rightarrow> RTSPService" where
  "promote r ib st =
     (let session = sessionObjs st ! r in
      st\<lparr>sessionObjs := (sessionObjs st)
            [r := session\<lparr>preInitChunks := [], preInitSize := 0,
                          initBuffer := Some ib, initTimer := None\<rparr>],
         clientObjs := writeClients (clients session) ib (clientObjs st)\<rparr>)"

text \<open>The \<open>data\<close> handler of \<open>proc.stdout\<close>.\<close>

definition onStdoutData :: "nat \<Rightarrow> buffer \<Rightarrow> RTSPService \<Rightarrow> RTSPService" where
  "onStdoutData r chunk st =
     (let session = sessionObjs st ! r in
      case initBuffer session of
        None \<Rightarrow>
          let chunks = preInitChunks session @ [chunk];
              size = preInitSize session + length chunk
          in if size > MAX_PREINIT_BYTES then promote r (concat chunks) st
             else let combined = concat chunks
                  in if hasInitMarker combined then promote r combined st
                     else st\<lparr>sessionObjs := (sessionObjs st)
                            [r := session\<lparr>preInitChunks := chunks, preInitSize := size\<rparr>]\<rparr>
      | Some ib \<Rightarrow>
          st\<lparr>clientObjs := writeClients (clients session) chunk (clientObjs st)\<rparr>)"

text \<open>The callback of the timer started in the \<open>spawn\<close> handler.\<close>

definition onInitTimeout :: "nat \<Rightarrow> RTSPService \<Rightarrow> RTSPService" where
  "onInitTimeout r st =
     (let session = sessionObjs st ! r in
      case initBuffer session of
        None \<Rightarrow>
          if length (preInitChunks session) > 0
          then promote r (concat (preInitChunks session)) st
          else st\<lparr>sessionObjs := (sessionObjs st)[r := session\<lparr>initTimer := None\<rparr>]\<rparr>
      | Some ib \<Rightarrow> st)"

subsection \<open>Process events\<close>

definition onSpawn :: "nat \<Rightarrow> RTSPService \<Rightarrow> RTSPService" where
  "onSpawn r st =
     (let session = sessionObjs st ! r in
      st\<lparr>sessionObjs := (sessionObjs st)
            [r := session\<lparr>isActive := True, initTimer := Some ()\<rparr>]\<rparr>)"

definition onError :: "nat \<Rightarrow> RTSPService \<Rightarrow> RTSPService" where
  "onError r st =
     (let session = sessionObjs st ! r in
      st\<lparr>sessionObjs := (sessionObjs st)[r := session\<lparr>isActive := False\<rparr>]\<rparr>)"

text \<open>
  The \<open>close\<close> handler removes the registry entry of the \<open>sessionId\<close> it closed over,
  which is the identifier stored in its session.
\<close>

definition onClose :: "nat \<Rightarrow> RTSPService \<Rightarrow> RTSPService" where
  "onClose r st =
     (let session = sessionObjs st ! r in
      st\<lparr>sessionObjs := (sessionObjs st)
            [r := session\<lparr>isActive := False, initTimer := None, clients := []\<rparr>],
         clientObjs := endClients (clients session) (clientObjs st),
         sessions := AList.delete (session_id session) (sessions st)\<rparr>)"

subsection \<open>The service's methods\<close>

datatype startResult = ResolvedExisting | Rejected | Pending

text \<open>
  \<open>startStream\<close>: \<open>spawnOk\<close> says whether \<open>spawn\<close> returns a process or throws. The
  promise of a started process stays pending until \<open>spawn\<close> or \<open>error\<close> is emitted.
\<close>

definition startStream :: "string \<Rightarrow> string \<Rightarrow> bool \<Rightarrow> RTSPService \<Rightarrow> startResult \<times> RTSPService" where
  "startStream sessionId url spawnOk st =
     (if (case map_of (sessions st) sessionId of
            Some r \<Rightarrow> isActive (sessionObjs st ! r) | None \<Rightarrow> False)
      then (ResolvedExisting, st)
      else if \<not> spawnOk then (Rejected, st)
      else
        let proc = length (procObjs st);
            session = \<lparr>session_id = sessionId, rtspUrl = url, process = Some proc,
                       source = Some proc, isActive = False, clientCount = 0, clients = [],
                       preInitChunks = [], preInitSize = 0, initBuffer = None,
                       initTimer = None\<rparr>
        in (Pending,
            st\<lparr>procObjs := procObjs st @ [\<lparr>killed = False\<rparr>],
               sessionObjs := sessionObjs st @ [session],
               sessions := AList.update sessionId (length (sessionObjs st)) (sessions st)\<rparr>))"

definition getStreamData :: "string \<Rightarrow> RTSPService \<Rightarrow> nat option \<times> RTSPService" where
  "getStreamData sessionId st =
     (case map_of (sessions st) sessionId of
        None \<Rightarrow> (None, st)
      | Some r \<Rightarrow>
          let session = sessionObjs st ! r in
          if source session = None \<or> \<not> isActive session then (None, st)
          else
            let client = length (clientObjs st);
                fresh = \<lparr>destroyed = False, writableEnded = False, written = [],
                         cleanupSession = r\<rparr>;
                session' = session\<lparr>clients := set_add client (clients session),
                                   clientCount := clientCount session + 1\<rparr>
            in (Some client,
                st\<lparr>sessionObjs := (sessionObjs st)[r := session'],
                   clientObjs := clientObjs st @
                     [case initBuffer session of
                        None \<Rightarrow> fresh | Some ib \<Rightarrow> pt_write fresh ib]\<rparr>))"

text \<open>The \<open>cleanup\<close> listener of client \<open>client\<close>.\<close>

definition cleanup :: "nat \<Rightarrow> RTSPService \<Rightarrow> RTSPService" where
  "cleanup client st =
     (let r = cleanupSession (clientObjs st ! client);
          session = sessionObjs st ! r
      in st\<lparr>sessionObjs := (sessionObjs st)
            [r := session\<lparr>clients := (if client \<in> set (clients session)
                                       then set_delete client (clients session)
                                       else clients session),
                          clientCount := max 0 (clientCount session - 1)\<rparr>]\<rparr>)"

definition stopStream :: "string \<Rightarrow> RTSPService \<Rightarrow> RTSPService" where
  "stopStream sessionId st =
     (case map_of (sessions st) sessionId of
        None \<Rightarrow> st
      | Some r \<Rightarrow>
          let session = sessionObjs st ! r in
          (case process session of
             None \<Rightarrow> st
           | Some p \<Rightarrow>
               st\<lparr>procObjs := (procObjs st)[p := (procObjs st ! p)\<lparr>killed := True\<rparr>],
                  sessionObjs := (sessionObjs st)
                    [r := session\<lparr>isActive := False, initTimer := None, clients := []\<rparr>],
                  clientObjs := endClients (clients session) (clientObjs st),
                  sessions := AList.delete sessionId (sessions st)\<rparr>))"

definition getInitSegment :: "string \<Rightarrow> RTSPService \<Rightarrow> buffer option" where
  "getInitSegment sessionId st =
     (case map_of (sessions st) sessionId of
        None \<Rightarrow> None | Some r \<Rightarrow> initBuffer (sessionObjs st ! r))"

record SessionStatus =
  status_id :: string
  status_isActive :: bool
  status_clientCount :: int
  status_rtspUrl :: string

definition statusOf :: "StreamSession \<Rightarrow> SessionStatus" where
  "statusOf session =
     \<lparr>status_id = session_id session, status_isActive = isActive session,
      status_clientCount = clientCount session, status_rtspUrl = rtspUrl session\<rparr>"

definition getSessionStatus :: "string \<Rightarrow> RTSPService \<Rightarrow> SessionStatus option" where
  "getSessionStatus sessionId st =
     (case map_of (sessions st) sessionId of
        None \<Rightarrow> None | Some r \<Rightarrow> Some (statusOf (sessionObjs st ! r)))"

definition getAllSessions :: "RTSPService \<Rightarrow> SessionStatus list" where
  "getAllSessions st = map (\<lambda>(k, r). statusOf (sessionObjs st ! r)) (sessions st)"

subsection \<open>Executions\<close>

text \<open>
  The events the service reacts to: calls of its methods, the events of a session's
  process (named by the session's reference), the timer callback, and what happens to a
  client stream. An event naming an object that does not exist cannot occur and leaves
  the state as it is. The timer callback and the process events are not restricted
  further, so the executions of the model include all those of the program.
\<close>

datatype streamEvent = Close | End | Error | Finish

datatype event =
    StartStream string string bool
  | ProcSpawn nat
  | ProcError nat
  | ProcClose nat
  | StdoutData nat buffer
  | InitTimeout nat
  | GetStreamData string
  | StopStream string
  | ClientDestroy nat
  | ClientEmit nat streamEvent

definition onSession :: "nat \<Rightarrow> (nat \<Rightarrow> RTSPService \<Rightarrow> RTSPService) \<Rightarrow> RTSPService \<Rightarrow> RTSPService" where
  "onSession r h st = (if r < length (sessionObjs st) then h r st else st)"

fun step :: "event \<Rightarrow> RTSPService \<Rightarrow> RTSPService" where
  "step (StartStream sessionId url spawnOk) st = snd (startStream sessionId url spawnOk st)"
| "step (ProcSpawn r) st = onSession r onSpawn st"
| "step (ProcError r) st = onSession r onError st"
| "step (ProcClose r) st = onSession r onClose st"
| "step (StdoutData r chunk) st = onSession r (\<lambda>r. onStdoutData r chunk) st"
| "step (InitTimeout r) st = onSession r onInitTimeout st"
| "step (GetStreamData sessionId) st = snd (getStreamData sessionId st)"
| "step (StopStream sessionId) st = stopStream sessionId st"
| "step (ClientDestroy c) st =
     (if c < length (clientObjs st)
      then st\<lparr>clientObjs := (clientObjs st)[c := (clientObjs st ! c)\<lparr>destroyed := True\<rparr>]\<rparr>
      else st)"
| "step (ClientEmit c ev) st = (if c < length (clientObjs st) then cleanup c st else st)"

fun run :: "event list \<Rightarrow> RTSPService \<Rightarrow> RTSPService" where
  "run [] st = st"
| "run (e # es) st = run es (step e st)"

subsection \<open>Well-formed states\<close>

text \<open>
  What holds of the stores in every execution: a registry entry points to an existing
  session object stored under its own identifier, and every session object holds the
  process it was created with.
\<close>

definition regOk :: "RTSPService \<Rightarrow> bool" where
  "regOk st \<longleftrightarrow>
     (\<forall>k r. (k, r) \<in> set (sessions st) \<longrightarrow>
        r < length (sessionObjs st) \<and> session_id (sessionObjs st ! r) = k) \<and>
     (\<forall>r < length (sessionObjs st).
        \<exists>p. process (sessionObjs st ! r) = Some p \<and> p < length (procObjs st))"

text \<open>
  The client sets: a set has no duplicates, its members are existing streams whose
  \<open>cleanup\<close> listener captured this very session, and as long as the session has no
  \<open>initBuffer\<close> nothing was written to them.
\<close>

definition clOk :: "RTSPService \<Rightarrow> bool" where
  "clOk st \<longleftrightarrow>
     (\<forall>r < length (sessionObjs st).
        distinct (clients (sessionObjs st ! r)) \<and>
        (\<forall>c \<in> set (clients (sessionObjs st ! r)).
           c < length (clientObjs st) \<and> cleanupSession (clientObjs st ! c) = r \<and>
           (initBuffer (sessionObjs st ! r) = None \<longrightarrow> written (clientObjs st ! c) = [])))"

text \<open>
  What a client stream has received, relative to the session \<open>getStreamData\<close> attached
  it to: nothing as long as that session has no \<open>initBuffer\<close>; afterwards its first
  chunk is the \<open>initBuffer\<close>, and a stream of the client set that is still empty is one
  that was destroyed or ended.
\<close>

definition firstOk :: "RTSPService \<Rightarrow> nat \<Rightarrow> bool" where
  "firstOk st c \<longleftrightarrow>
     (let q = clientObjs st ! c; r = cleanupSession q; session = sessionObjs st ! r
      in r < length (sessionObjs st) \<and>
         (case initBuffer session of
            None \<Rightarrow> written q = []
          | Some b \<Rightarrow>
              (case written q of
                 [] \<Rightarrow> c \<in> set (clients session) \<longrightarrow> destroyed q \<or> writableEnded q
               | w # ws \<Rightarrow> w = b)))"

definition firstAll :: "RTSPService \<Rightarrow> bool" where
  "firstAll st \<longleftrightarrow> (\<forall>c < length (clientObjs st). firstOk st c)"

text \<open>\<open>preInitSize\<close> is the number of bytes in \<open>preInitChunks\<close>.\<close>

definition sizeOk :: "RTSPService \<Rightarrow> bool" where
  "sizeOk st \<longleftrightarrow>
     (\<forall>r < length (sessionObjs st).
        preInitSize (sessionObjs st ! r) = length (concat (preInitChunks (sessionObjs st ! r))))"

section \<open>Properties\<close>

subsection \<open>The loops over the clients\<close>

lemma length_writeClients [simp]: "length (writeClients cs b qs) = length qs"
  by (induction cs arbitrary: qs) auto

lemma writeClients_other: "i \<notin> set cs \<Longrightarrow> writeClients cs b qs ! i = qs ! i"
  by (induction cs arbitrary: qs) auto

lemma writeClients_field:
  assumes "\<And>q. f (pt_write q b) = f q"
  shows "f (writeClients cs b qs ! i) = f (qs ! i)"
proof (induction cs arbitrary: qs)
  case Nil
  show ?case by simp
next
  case (Cons c cs)
  let ?qs' = "if \<not> destroyed (qs ! c) then qs[c := pt_write (qs ! c) b] else qs"
  have "f (?qs' ! i) = f (qs ! i)"
    by (cases "i = c"; cases "c < length qs") (simp_all add: assms list_update_beyond)
  with Cons.IH [of ?qs'] show ?case by simp
qed

lemma writeClients_cleanupSession [simp]:
  "cleanupSession (writeClients cs b qs ! i) = cleanupSession (qs ! i)"
  by (rule writeClients_field) (simp add: pt_write_def)


lemma writeClients_destroyed [simp]:
  "destroyed (writeClients cs b qs ! i) = destroyed (qs ! i)"
  by (rule writeClients_field) (simp add: pt_write_def)


lemma writeClients_extends:
  "\<exists>ws. written (writeClients cs b qs ! i) = written (qs ! i) @ ws"
proof (induction cs arbitrary: qs)
  case Nil
  show ?case by simp
next
  case (Cons c cs)
  let ?qs' = "if \<not> destroyed (qs ! c) then qs[c := pt_write (qs ! c) b] else qs"
  obtain ws where ws: "written (writeClients cs b ?qs' ! i) = written (?qs' ! i) @ ws"
    using Cons.IH by blast
  have "\<exists>vs. written (?qs' ! i) = written (qs ! i) @ vs"
    by (cases "i = c"; cases "c < length qs") (simp_all add: pt_write_def list_update_beyond)
  then obtain vs where "written (?qs' ! i) = written (qs ! i) @ vs" ..
  with ws show ?case by simp
qed

lemma writeClients_member:
  "distinct cs \<Longrightarrow> i \<in> set cs \<Longrightarrow> i < length qs \<Longrightarrow>
   writeClients cs b qs ! i = (if destroyed (qs ! i) then qs ! i else pt_write (qs ! i) b)"
proof (induction cs arbitrary: qs)
  case Nil
  then show ?case by simp
next
  case (Cons c cs)
  show ?case
  proof (cases "i = c")
    case True
    with Cons.prems have "i \<notin> set cs" by simp
    with True Cons.prems(3) show ?thesis by (simp add: writeClients_other)
  next
    case False
    with Cons.prems have "i \<in> set cs" "distinct cs" by simp_all
    with False Cons.prems(3) Cons.IH show ?thesis by simp
  qed
qed

lemma length_endClients [simp]: "length (endClients cs qs) = length qs"
  by (induction cs arbitrary: qs) auto

lemma endClients_field:
  assumes "\<And>q. f (pt_end q) = f q"
  shows "f (endClients cs qs ! i) = f (qs ! i)"
proof (induction cs arbitrary: qs)
  case Nil
  show ?case by simp
next
  case (Cons c cs)
  have "f (qs[c := pt_end (qs ! c)] ! i) = f (qs ! i)"
    by (cases "i = c"; cases "c < length qs") (simp_all add: assms list_update_beyond)
  with Cons.IH [of "qs[c := pt_end (qs ! c)]"] show ?case by simp
qed

lemma endClients_written [simp]: "written (endClients cs qs ! i) = written (qs ! i)"
  by (rule endClients_field) (simp add: pt_end_def)


lemma endClients_cleanupSession [simp]:
  "cleanupSession (endClients cs qs ! i) = cleanupSession (qs ! i)"
  by (rule endClients_field) (simp add: pt_end_def)


lemma endClients_keeps_ended:
  "writableEnded (qs ! i) \<Longrightarrow> writableEnded (endClients cs qs ! i)"
proof (induction cs arbitrary: qs)
  case Nil
  then show ?case by simp
next
  case (Cons c cs)
  have "writableEnded (qs[c := pt_end (qs ! c)] ! i)"
    using Cons.prems by (cases "i = c"; cases "c < length qs") (simp_all add: pt_end_def list_update_beyond)
  with Cons.IH [of "qs[c := pt_end (qs ! c)]"] show ?case by simp
qed


lemma endClients_member:
  "i \<in> set cs \<Longrightarrow> i < length qs \<Longrightarrow> writableEnded (endClients cs qs ! i)"
proof (induction cs arbitrary: qs)
  case Nil
  then show ?case by simp
next
  case (Cons c cs)
  show ?case
  proof (cases "i = c")
    case True
    with Cons.prems show ?thesis by (simp add: endClients_keeps_ended pt_end_def)
  next
    case False
    with Cons.prems Cons.IH show ?thesis by simp
  qed
qed

subsection \<open>Resolution of the init segment is final\<close>

lemma nth_list_update_any:
  "xs[i := v] ! j = (if i = j \<and> i < length xs then v else xs ! j)"
  by (cases "i < length xs") (auto simp: list_update_beyond)

lemma step_keeps_initBuffer:
  assumes "r < length (sessionObjs st)" "initBuffer (sessionObjs st ! r) = Some b"
  shows "r < length (sessionObjs (step e st)) \<and> initBuffer (sessionObjs (step e st) ! r) = Some b"
proof (cases e)
  case (StartStream sessionId url spawnOk)
  with assms show ?thesis
    by (simp add: startStream_def Let_def nth_append split: option.splits)
next
  case (ProcSpawn x)
  with assms show ?thesis by (simp add: onSession_def onSpawn_def Let_def nth_list_update_any)
next
  case (ProcError x)
  with assms show ?thesis by (simp add: onSession_def onError_def Let_def nth_list_update_any)
next
  case (ProcClose x)
  with assms show ?thesis by (simp add: onSession_def onClose_def Let_def nth_list_update_any)
next
  case (StdoutData x chunk)
  with assms show ?thesis
    by (simp add: onSession_def onStdoutData_def promote_def Let_def nth_list_update_any
        split: option.splits)
next
  case (InitTimeout x)
  with assms show ?thesis
    by (simp add: onSession_def onInitTimeout_def promote_def Let_def nth_list_update_any
        split: option.splits)
next
  case (GetStreamData sessionId)
  with assms show ?thesis
    by (auto simp: getStreamData_def Let_def nth_list_update_any split: option.splits)
next
  case (StopStream sessionId)
  with assms show ?thesis
    by (simp add: stopStream_def Let_def nth_list_update_any split: option.splits)
next
  case (ClientDestroy c)
  with assms show ?thesis by simp
next
  case (ClientEmit c ev)
  with assms show ?thesis by (simp add: cleanup_def Let_def nth_list_update_any)
qed

lemma run_keeps_initBuffer:
  "r < length (sessionObjs st) \<Longrightarrow> initBuffer (sessionObjs st ! r) = Some b \<Longrightarrow>
   r < length (sessionObjs (run es st)) \<and> initBuffer (sessionObjs (run es st) ! r) = Some b"
proof (induction es arbitrary: st)
  case Nil
  then show ?case by simp
next
  case (Cons e es)
  from step_keeps_initBuffer [OF Cons.prems, of e] Cons.IH [of "step e st"]
  show ?case by simp
qed

lemma onInitTimeout_resolved:
  "initBuffer (sessionObjs st ! r) = Some b \<Longrightarrow> onInitTimeout r st = st"
  by (simp add: onInitTimeout_def)

lemma onStdoutData_resolved:
  "initBuffer (sessionObjs st ! r) = Some b \<Longrightarrow>
   sessionObjs (onStdoutData r chunk st) = sessionObjs st"
  by (simp add: onStdoutData_def)

text \<open>The definitions a concrete execution unfolds.\<close>

lemmas ev = newService_def startStream_def getStreamData_def cleanup_def stopStream_def
  onSession_def onSpawn_def onError_def onClose_def onStdoutData_def onInitTimeout_def
  promote_def set_add_def set_delete_def pt_write_def pt_end_def hasInitMarker_def
  indexOf_def Let_def

text \<open>
  C1: once a session's \<open>initBuffer\<close> is set, no sequence of events (chunks, timer
  callbacks, attaches, client events, stops, process events) changes it: the timer
  callback then leaves the whole state as it is, and the data handler no longer touches
  the session, it only relays the chunk. So \<open>initBuffer\<close> goes from unset to set at most
  once, and whichever trigger commits first wins.
\<close>

theorem initBuffer_set_once:
  assumes "r < length (sessionObjs st)" and "initBuffer (sessionObjs st ! r) = Some b"
  shows "initBuffer (sessionObjs (run es st) ! r) = Some b
       \<and> step (InitTimeout r) st = st
       \<and> sessionObjs (step (StdoutData r chunk) st) = sessionObjs st"
  using assms run_keeps_initBuffer [OF assms, of es]
  by (simp add: onSession_def onInitTimeout_resolved onStdoutData_resolved)

theorem initBuffer_set_once_witness:
  "let st = run [StartStream ''cam'' ''rtsp://host/1'' True, ProcSpawn 0, GetStreamData ''cam'',
                 StdoutData 0 ''....ftyp''] newService;
       es = [InitTimeout 0, StdoutData 0 ''....moov'', GetStreamData ''cam'', InitTimeout 0,
             StdoutData 0 ''moof'', ClientEmit 0 Close, ProcClose 0]
   in 0 < length (sessionObjs st) \<and> initBuffer (sessionObjs st ! 0) = Some ''....ftyp''
    \<and> initBuffer (sessionObjs (run es st) ! 0) = Some ''....ftyp''
    \<and> step (InitTimeout 0) st = st
    \<and> sessionObjs (step (StdoutData 0 ''moov'') st) = sessionObjs st"
proof -
  let ?st = "run [StartStream ''cam'' ''rtsp://host/1'' True, ProcSpawn 0, GetStreamData ''cam'',
                 StdoutData 0 ''....ftyp''] newService"
  have h1: "0 < length (sessionObjs ?st)" by (simp add: ev)
  have h2: "initBuffer (sessionObjs ?st ! 0) = Some ''....ftyp''"
    by (simp add: ev MAX_PREINIT_BYTES_def)
  from initBuffer_set_once [OF h1 h2] h1 h2 show ?thesis
    unfolding Let_def by blast
qed

subsection \<open>The registry\<close>

lemma set_AList_update:
  "(k', v') \<in> set (AList.update k v al) \<Longrightarrow> (k', v') = (k, v) \<or> (k', v') \<in> set al"
  by (induction al) (auto split: if_splits)

lemma set_AList_delete: "(k', v') \<in> set (AList.delete k al) \<Longrightarrow> (k', v') \<in> set al \<and> k' \<noteq> k"
  by (auto simp: AList.delete_eq)

lemma regOk_step: "regOk st \<Longrightarrow> regOk (step e st)"
proof (cases e)
  case (StartStream sessionId url spawnOk)
  assume "regOk st"
  with StartStream show ?thesis
    by (fastforce simp: regOk_def startStream_def Let_def nth_append less_Suc_eq
        dest: set_AList_update split: option.splits)
next
  case (ProcSpawn x)
  assume "regOk st"
  with ProcSpawn show ?thesis
    by (auto simp: regOk_def onSession_def onSpawn_def Let_def nth_list_update_any)
next
  case (ProcError x)
  assume "regOk st"
  with ProcError show ?thesis
    by (auto simp: regOk_def onSession_def onError_def Let_def nth_list_update_any)
next
  case (ProcClose x)
  assume "regOk st"
  with ProcClose show ?thesis
    by (auto simp: regOk_def onSession_def onClose_def Let_def nth_list_update_any
        dest: set_AList_delete)
next
  case (StdoutData x chunk)
  assume "regOk st"
  with StdoutData show ?thesis
    by (auto simp: regOk_def onSession_def onStdoutData_def promote_def Let_def
        nth_list_update_any split: option.splits)
next
  case (InitTimeout x)
  assume "regOk st"
  with InitTimeout show ?thesis
    by (auto simp: regOk_def onSession_def onInitTimeout_def promote_def Let_def
        nth_list_update_any split: option.splits)
next
  case (GetStreamData sessionId)
  assume "regOk st"
  with GetStreamData show ?thesis
    by (auto simp: regOk_def getStreamData_def Let_def nth_list_update_any
        split: option.splits)
next
  case (StopStream sessionId)
  assume "regOk st"
  with StopStream show ?thesis
    by (auto simp: regOk_def stopStream_def Let_def nth_list_update_any
        dest: set_AList_delete split: option.splits)
next
  case (ClientDestroy c)
  assume "regOk st"
  with ClientDestroy show ?thesis by (auto simp: regOk_def)
next
  case (ClientEmit c ev)
  assume "regOk st"
  with ClientEmit show ?thesis
    by (auto simp: regOk_def cleanup_def Let_def nth_list_update_any)
qed

lemma regOk_run: "regOk st \<Longrightarrow> regOk (run es st)"
  by (induction es arbitrary: st) (simp_all add: regOk_step)

lemma regOk_reachable: "regOk (run es newService)"
  by (rule regOk_run) (simp add: regOk_def newService_def)

subsection \<open>The client sets\<close>

lemma clOk_sessionD:
  "clOk st \<Longrightarrow> r < length (sessionObjs st) \<Longrightarrow> c \<in> set (clients (sessionObjs st ! r)) \<Longrightarrow>
   c < length (clientObjs st) \<and> cleanupSession (clientObjs st ! c) = r"
  by (simp add: clOk_def)

lemma clOk_writeClients_other:
  assumes "clOk st" "x < length (sessionObjs st)" "r < length (sessionObjs st)" "r \<noteq> x"
    and "c \<in> set (clients (sessionObjs st ! r))"
  shows "writeClients (clients (sessionObjs st ! x)) b (clientObjs st) ! c = clientObjs st ! c"
proof -
  have "c \<notin> set (clients (sessionObjs st ! x))"
    using clOk_sessionD [OF assms(1,2), of c] clOk_sessionD [OF assms(1,3,5)] assms(4) by auto
  then show ?thesis by (rule writeClients_other)
qed

lemma clOk_promote:
  assumes "clOk st" "x < length (sessionObjs st)"
  shows "clOk (promote x ib st)"
  unfolding clOk_def
proof (intro allI impI)
  fix r
  assume r: "r < length (sessionObjs (promote x ib st))"
  then have r': "r < length (sessionObjs st)" by (simp add: promote_def Let_def)
  have cl: "clients (sessionObjs (promote x ib st) ! r) = clients (sessionObjs st ! r)"
    using r' by (simp add: promote_def Let_def nth_list_update_any)
  show "distinct (clients (sessionObjs (promote x ib st) ! r)) \<and>
        (\<forall>c\<in>set (clients (sessionObjs (promote x ib st) ! r)).
            c < length (clientObjs (promote x ib st)) \<and>
            cleanupSession (clientObjs (promote x ib st) ! c) = r \<and>
            (initBuffer (sessionObjs (promote x ib st) ! r) = None \<longrightarrow>
             written (clientObjs (promote x ib st) ! c) = []))"
  proof (cases "r = x")
    case True
    with assms r' show ?thesis
      by (simp add: clOk_def promote_def Let_def nth_list_update_any)
  next
    case False
    have "clientObjs (promote x ib st) ! c = clientObjs st ! c"
      if "c \<in> set (clients (sessionObjs st ! r))" for c
      using clOk_writeClients_other [OF assms r' False that]
      by (simp add: promote_def Let_def)
    with assms(1) r' False show ?thesis
      unfolding cl by (simp add: clOk_def promote_def Let_def nth_list_update_any)
  qed
qed

lemma clOk_relay:
  assumes "clOk st" "x < length (sessionObjs st)" "initBuffer (sessionObjs st ! x) = Some ib"
  shows "clOk (st\<lparr>clientObjs := writeClients (clients (sessionObjs st ! x)) b (clientObjs st)\<rparr>)"
  unfolding clOk_def
proof (intro allI impI)
  fix r
  let ?st' = "st\<lparr>clientObjs := writeClients (clients (sessionObjs st ! x)) b (clientObjs st)\<rparr>"
  assume "r < length (sessionObjs ?st')"
  then have r': "r < length (sessionObjs st)" by simp
  show "distinct (clients (sessionObjs ?st' ! r)) \<and>
        (\<forall>c\<in>set (clients (sessionObjs ?st' ! r)).
            c < length (clientObjs ?st') \<and> cleanupSession (clientObjs ?st' ! c) = r \<and>
            (initBuffer (sessionObjs ?st' ! r) = None \<longrightarrow> written (clientObjs ?st' ! c) = []))"
  proof (cases "r = x")
    case True
    with assms r' show ?thesis by (simp add: clOk_def)
  next
    case False
    have "clientObjs ?st' ! c = clientObjs st ! c"
      if "c \<in> set (clients (sessionObjs st ! r))" for c
      using clOk_writeClients_other [OF assms(1,2) r' False that] by simp
    with assms(1) r' show ?thesis by (simp add: clOk_def)
  qed
qed

lemma clOk_onStdoutData:
  "clOk st \<Longrightarrow> x < length (sessionObjs st) \<Longrightarrow> clOk (onStdoutData x chunk st)"
proof (cases "initBuffer (sessionObjs st ! x)")
  case None
  assume a: "clOk st" "x < length (sessionObjs st)"
  have "clOk (st\<lparr>sessionObjs := (sessionObjs st)
           [x := (sessionObjs st ! x)\<lparr>preInitChunks := p, preInitSize := n\<rparr>]\<rparr>)" for p n
    using a by (simp add: clOk_def nth_list_update_any)
  with a None show ?thesis
    by (simp add: onStdoutData_def Let_def clOk_promote)
next
  case (Some ib)
  assume "clOk st" "x < length (sessionObjs st)"
  with Some show ?thesis by (simp add: onStdoutData_def Let_def clOk_relay)
qed

lemma clOk_onInitTimeout:
  "clOk st \<Longrightarrow> x < length (sessionObjs st) \<Longrightarrow> clOk (onInitTimeout x st)"
proof (cases "initBuffer (sessionObjs st ! x)")
  case None
  assume a: "clOk st" "x < length (sessionObjs st)"
  have "clOk (st\<lparr>sessionObjs := (sessionObjs st)
           [x := (sessionObjs st ! x)\<lparr>initTimer := None\<rparr>]\<rparr>)"
    using a by (simp add: clOk_def nth_list_update_any)
  with a None show ?thesis
    by (simp add: onInitTimeout_def Let_def clOk_promote)
next
  case (Some ib)
  assume "clOk st"
  with Some show ?thesis by (simp add: onInitTimeout_def)
qed

lemma clOk_cong:
  "sessionObjs st' = sessionObjs st'' \<Longrightarrow> clientObjs st' = clientObjs st'' \<Longrightarrow>
   clOk st' = clOk st''"
  by (simp add: clOk_def)

lemma clOk_update_session:
  assumes "clOk st"
    and "x < length (sessionObjs st) \<Longrightarrow>
         distinct (clients s') \<and> set (clients s') \<subseteq> set (clients (sessionObjs st ! x)) \<and>
         (initBuffer s' = None \<longrightarrow> initBuffer (sessionObjs st ! x) = None)"
  shows "clOk (st\<lparr>sessionObjs := (sessionObjs st)[x := s']\<rparr>)"
  unfolding clOk_def
proof (intro allI impI)
  fix r
  let ?st' = "st\<lparr>sessionObjs := (sessionObjs st)[x := s']\<rparr>"
  assume "r < length (sessionObjs ?st')"
  then have r: "r < length (sessionObjs st)" by simp
  show "distinct (clients (sessionObjs ?st' ! r)) \<and>
        (\<forall>c\<in>set (clients (sessionObjs ?st' ! r)).
            c < length (clientObjs ?st') \<and> cleanupSession (clientObjs ?st' ! c) = r \<and>
            (initBuffer (sessionObjs ?st' ! r) = None \<longrightarrow> written (clientObjs ?st' ! c) = []))"
  proof (cases "r = x")
    case True
    have "sessionObjs ?st' ! r = s'" using r True by simp
    moreover have "\<forall>c\<in>set (clients (sessionObjs st ! x)).
            c < length (clientObjs st) \<and> cleanupSession (clientObjs st ! c) = x \<and>
            (initBuffer (sessionObjs st ! x) = None \<longrightarrow> written (clientObjs st ! c) = [])"
      using assms(1) r True by (simp add: clOk_def)
    ultimately show ?thesis using assms(2) r True by auto
  next
    case False
    then have "sessionObjs ?st' ! r = sessionObjs st ! r" by simp
    with assms(1) r show ?thesis by (simp add: clOk_def)
  qed
qed

lemma clOk_endClients:
  "clOk st \<Longrightarrow> clOk (st\<lparr>clientObjs := endClients cs (clientObjs st)\<rparr>)"
  by (simp add: clOk_def)

lemma clOk_teardown:
  assumes "clOk st"
  shows "clOk (st\<lparr>sessionObjs := (sessionObjs st)
                  [x := (sessionObjs st ! x)\<lparr>isActive := False, initTimer := None, clients := []\<rparr>],
                clientObjs := endClients cs (clientObjs st)\<rparr>)"
proof -
  have "clOk (st\<lparr>sessionObjs := (sessionObjs st)
                  [x := (sessionObjs st ! x)\<lparr>isActive := False, initTimer := None, clients := []\<rparr>]\<rparr>)"
    by (rule clOk_update_session [OF assms]) simp
  from clOk_endClients [OF this, of cs] show ?thesis by simp
qed

lemma clOk_onClose: "clOk st \<Longrightarrow> clOk (onClose x st)"
proof -
  assume a: "clOk st"
  have "clOk (onClose x st) =
        clOk (st\<lparr>sessionObjs := (sessionObjs st)
                  [x := (sessionObjs st ! x)\<lparr>isActive := False, initTimer := None, clients := []\<rparr>],
                clientObjs := endClients (clients (sessionObjs st ! x)) (clientObjs st)\<rparr>)"
    by (rule clOk_cong) (simp_all add: onClose_def Let_def)
  with clOk_teardown [OF a] show ?thesis by simp
qed

lemma clOk_stopStream: "clOk st \<Longrightarrow> clOk (stopStream sessionId st)"
proof (cases "map_of (sessions st) sessionId")
  case None
  assume "clOk st"
  with None show ?thesis by (simp add: stopStream_def)
next
  case (Some x)
  assume a: "clOk st"
  show ?thesis
  proof (cases "process (sessionObjs st ! x)")
    case None
    with Some a show ?thesis by (simp add: stopStream_def)
  next
    case (Some p)
    have "clOk (stopStream sessionId st) =
        clOk (st\<lparr>sessionObjs := (sessionObjs st)
                  [x := (sessionObjs st ! x)\<lparr>isActive := False, initTimer := None, clients := []\<rparr>],
                clientObjs := endClients (clients (sessionObjs st ! x)) (clientObjs st)\<rparr>)"
      using Some \<open>map_of (sessions st) sessionId = Some x\<close>
      by (intro clOk_cong) (simp_all add: stopStream_def Let_def)
    with clOk_teardown [OF a] show ?thesis by simp
  qed
qed

lemma clOk_cleanup:
  assumes "clOk st"
  shows "clOk (cleanup c st)"
proof -
  define x where "x = cleanupSession (clientObjs st ! c)"
  define s' where "s' = (sessionObjs st ! x)
      \<lparr>clients := (if c \<in> set (clients (sessionObjs st ! x))
                   then set_delete c (clients (sessionObjs st ! x))
                   else clients (sessionObjs st ! x)),
       clientCount := max 0 (clientCount (sessionObjs st ! x) - 1)\<rparr>"
  have "distinct (clients s') \<and> set (clients s') \<subseteq> set (clients (sessionObjs st ! x)) \<and>
        (initBuffer s' = None \<longrightarrow> initBuffer (sessionObjs st ! x) = None)"
    if "x < length (sessionObjs st)"
  proof -
    from assms that have "distinct (clients (sessionObjs st ! x))"
      unfolding clOk_def by blast
    then show ?thesis by (auto simp: s'_def set_delete_def distinct_removeAll)
  qed
  then have "clOk (st\<lparr>sessionObjs := (sessionObjs st)[x := s']\<rparr>)"
    by (rule clOk_update_session [OF assms])
  then show ?thesis unfolding cleanup_def Let_def x_def s'_def .
qed

lemma clOk_new_client:
  assumes "clOk st" "x < length (sessionObjs st)"
    and "cleanupSession q = x"
    and "initBuffer (sessionObjs st ! x) = None \<longrightarrow> written q = []"
  shows "clOk (st\<lparr>sessionObjs := (sessionObjs st)
                    [x := (sessionObjs st ! x)
                       \<lparr>clients := set_add (length (clientObjs st)) (clients (sessionObjs st ! x)),
                        clientCount := n\<rparr>],
                 clientObjs := clientObjs st @ [q]\<rparr>)"
  unfolding clOk_def
proof (intro allI impI)
  fix r
  let ?s' = "(sessionObjs st ! x)
                       \<lparr>clients := set_add (length (clientObjs st)) (clients (sessionObjs st ! x)),
                        clientCount := n\<rparr>"
  let ?st' = "st\<lparr>sessionObjs := (sessionObjs st)[x := ?s'], clientObjs := clientObjs st @ [q]\<rparr>"
  assume "r < length (sessionObjs ?st')"
  then have r: "r < length (sessionObjs st)" by simp
  have old: "distinct (clients (sessionObjs st ! r)) \<and>
        (\<forall>c\<in>set (clients (sessionObjs st ! r)).
            c < length (clientObjs st) \<and> cleanupSession (clientObjs st ! c) = r \<and>
            (initBuffer (sessionObjs st ! r) = None \<longrightarrow> written (clientObjs st ! c) = []))"
    using assms(1) r by (simp add: clOk_def)
  show "distinct (clients (sessionObjs ?st' ! r)) \<and>
        (\<forall>c\<in>set (clients (sessionObjs ?st' ! r)).
            c < length (clientObjs ?st') \<and> cleanupSession (clientObjs ?st' ! c) = r \<and>
            (initBuffer (sessionObjs ?st' ! r) = None \<longrightarrow> written (clientObjs ?st' ! c) = []))"
  proof (cases "r = x")
    case True
    then have "sessionObjs ?st' ! r = ?s'" using r by simp
    with old True assms(3,4) show ?thesis
      by (auto simp: set_add_def nth_append)
  next
    case False
    then have "sessionObjs ?st' ! r = sessionObjs st ! r" by simp
    with old show ?thesis by (auto simp: nth_append)
  qed
qed

lemma clOk_getStreamData: "clOk st \<Longrightarrow> clOk (snd (getStreamData sessionId st))"
proof (cases "map_of (sessions st) sessionId")
  case None
  assume "clOk st"
  with None show ?thesis by (simp add: getStreamData_def)
next
  case (Some x)
  assume a: "clOk st"
  show ?thesis
  proof (cases "source (sessionObjs st ! x) = None \<or> \<not> isActive (sessionObjs st ! x)")
    case True
    with Some a show ?thesis by (auto simp: getStreamData_def Let_def)
  next
    case False
    show ?thesis
    proof (cases "x < length (sessionObjs st)")
      case True
      have "clOk (st\<lparr>sessionObjs := (sessionObjs st)
                    [x := (sessionObjs st ! x)
                       \<lparr>clients := set_add (length (clientObjs st)) (clients (sessionObjs st ! x)),
                        clientCount := clientCount (sessionObjs st ! x) + 1\<rparr>],
                 clientObjs := clientObjs st @
                   [case initBuffer (sessionObjs st ! x) of
                      None \<Rightarrow> \<lparr>destroyed = False, writableEnded = False, written = [],
                                cleanupSession = x\<rparr>
                    | Some ib \<Rightarrow> pt_write \<lparr>destroyed = False, writableEnded = False,
                                written = [], cleanupSession = x\<rparr> ib]\<rparr>)"
        by (rule clOk_new_client [OF a True]) (simp_all add: pt_write_def split: option.splits)
      with Some False a show ?thesis by (simp add: getStreamData_def Let_def)
    next
      case outside: False
      have "clOk (snd (getStreamData sessionId st)) =
            clOk (st\<lparr>clientObjs := clientObjs st @ [q]\<rparr>)" if "q = (case initBuffer (sessionObjs st ! x) of
                      None \<Rightarrow> \<lparr>destroyed = False, writableEnded = False, written = [],
                                cleanupSession = x\<rparr>
                    | Some ib \<Rightarrow> pt_write \<lparr>destroyed = False, writableEnded = False,
                                written = [], cleanupSession = x\<rparr> ib)" for q
        using Some False outside that
        by (intro clOk_cong) (simp_all add: getStreamData_def Let_def list_update_beyond)
      moreover have "clOk (st\<lparr>clientObjs := clientObjs st @ [q]\<rparr>)" for q
        using a by (simp add: clOk_def nth_append less_Suc_eq)
      ultimately show ?thesis by simp
    qed
  qed
qed

lemma clOk_step: "clOk st \<Longrightarrow> clOk (step e st)"
proof (cases e)
  case (StartStream sessionId url spawnOk)
  assume "clOk st"
  with StartStream show ?thesis
    by (auto simp: clOk_def startStream_def Let_def nth_append less_Suc_eq
        split: option.splits)
next
  case (ProcSpawn x)
  assume a: "clOk st"
  have "clOk (onSpawn x st)" unfolding onSpawn_def Let_def
    by (rule clOk_update_session [OF a]) (use a in \<open>simp add: clOk_def\<close>)
  with ProcSpawn a show ?thesis by (simp add: onSession_def)
next
  case (ProcError x)
  assume a: "clOk st"
  have "clOk (onError x st)" unfolding onError_def Let_def
    by (rule clOk_update_session [OF a]) (use a in \<open>simp add: clOk_def\<close>)
  with ProcError a show ?thesis by (simp add: onSession_def)
next
  case (ProcClose x)
  assume "clOk st"
  with ProcClose show ?thesis by (simp add: onSession_def clOk_onClose)
next
  case (StdoutData x chunk)
  assume "clOk st"
  with StdoutData show ?thesis by (simp add: onSession_def clOk_onStdoutData)
next
  case (InitTimeout x)
  assume "clOk st"
  with InitTimeout show ?thesis by (simp add: onSession_def clOk_onInitTimeout)
next
  case (GetStreamData sessionId)
  assume "clOk st"
  with GetStreamData show ?thesis by (simp add: clOk_getStreamData)
next
  case (StopStream sessionId)
  assume "clOk st"
  with StopStream show ?thesis by (simp add: clOk_stopStream)
next
  case (ClientDestroy c)
  assume "clOk st"
  with ClientDestroy show ?thesis by (simp add: clOk_def nth_list_update_any)
next
  case (ClientEmit c ev)
  assume "clOk st"
  with ClientEmit show ?thesis by (simp add: clOk_cleanup)
qed

lemma clOk_run: "clOk st \<Longrightarrow> clOk (run es st)"
  by (induction es arbitrary: st) (simp_all add: clOk_step)

lemma clOk_reachable: "clOk (run es newService)"
  by (rule clOk_run) (simp add: clOk_def newService_def)

subsection \<open>Teardown when the process exits\<close>

lemma getAllSessions_ids:
  assumes "regOk st"
  shows "set (map status_id (getAllSessions st)) = fst ` set (sessions st)"
proof -
  have "status_id (statusOf (sessionObjs st ! r)) = k" if "(k, r) \<in> set (sessions st)" for k r
    using assms that by (simp add: regOk_def statusOf_def)
  then have "map status_id (getAllSessions st) = map fst (sessions st)"
    by (auto simp: getAllSessions_def)
  then show ?thesis by simp
qed

lemma map_of_delete_same: "map_of (AList.delete k al) k = None"
  by (simp add: AList.delete_conv')

text \<open>
  C8: in every execution, when the process of a session emits \<open>close\<close> (whatever the
  reason, and whether or not \<open>stopStream\<close> was called before), the session is inactive
  afterwards, every stream that was in its client set is ended, the set is empty, and the
  registry has no entry under the session's identifier: status lookups find nothing and
  the identifier is not in the list of sessions.
\<close>

theorem close_tears_session_down:
  assumes "r < length (sessionObjs (run es newService))"
  shows "let st = run es newService; session = sessionObjs st ! r;
             st' = step (ProcClose r) st
         in \<not> isActive (sessionObjs st' ! r)
          \<and> (\<forall>c \<in> set (clients session). writableEnded (clientObjs st' ! c))
          \<and> clients (sessionObjs st' ! r) = []
          \<and> map_of (sessions st') (session_id session) = None
          \<and> getSessionStatus (session_id session) st' = None
          \<and> session_id session \<notin> set (map status_id (getAllSessions st'))"
proof -
  define st where "st = run es newService"
  define session where "session = sessionObjs st ! r"
  define st' where "st' = step (ProcClose r) st"
  have r: "r < length (sessionObjs st)" using assms by (simp add: st_def)
  have reg: "regOk st" and cl: "clOk st"
    by (simp_all add: st_def regOk_reachable clOk_reachable)
  have st': "st' = onClose r st" using r by (simp add: st'_def onSession_def)
  have 1: "\<not> isActive (sessionObjs st' ! r)" and 3: "clients (sessionObjs st' ! r) = []"
    using r by (simp_all add: st' onClose_def Let_def)
  have 2: "writableEnded (clientObjs st' ! c)" if "c \<in> set (clients session)" for c
  proof -
    from clOk_sessionD [OF cl r] that have "c < length (clientObjs st)"
      by (simp add: session_def)
    with that show ?thesis
      by (simp add: st' onClose_def Let_def session_def endClients_member)
  qed
  have 4: "map_of (sessions st') (session_id session) = None"
    by (simp add: st' onClose_def Let_def session_def map_of_delete_same)
  then have 5: "getSessionStatus (session_id session) st' = None"
    by (simp add: getSessionStatus_def)
  have "regOk st'" unfolding st'_def by (rule regOk_step [OF reg])
  then have "set (map status_id (getAllSessions st')) = fst ` set (sessions st')"
    by (rule getAllSessions_ids)
  moreover have "session_id session \<notin> fst ` set (sessions st')"
    by (simp add: st' onClose_def Let_def session_def AList.delete_notin_dom)
  ultimately have 6: "session_id session \<notin> set (map status_id (getAllSessions st'))"
    by simp
  from 1 2 3 4 5 6 show ?thesis
    unfolding Let_def st_def [symmetric] session_def [symmetric] st'_def [symmetric]
    by blast
qed

theorem close_tears_session_down_witness:
  "let st = run [StartStream ''cam'' ''rtsp://host/1'' True, ProcSpawn 0,
                 GetStreamData ''cam'', GetStreamData ''cam''] newService;
       st' = step (ProcClose 0) st
   in 0 < length (sessionObjs st) \<and> clients (sessionObjs st ! 0) = [0, 1]
    \<and> map_of (sessions st) ''cam'' = Some 0
    \<and> \<not> isActive (sessionObjs st' ! 0)
    \<and> writableEnded (clientObjs st' ! 0) \<and> writableEnded (clientObjs st' ! 1)
    \<and> clients (sessionObjs st' ! 0) = []
    \<and> getSessionStatus ''cam'' st' = None
    \<and> ''cam'' \<notin> set (map status_id (getAllSessions st'))"
proof -
  let ?es = "[StartStream ''cam'' ''rtsp://host/1'' True, ProcSpawn 0,
              GetStreamData ''cam'', GetStreamData ''cam'']"
  have h: "0 < length (sessionObjs (run ?es newService))" by (simp add: ev)
  have c: "clients (sessionObjs (run ?es newService) ! 0) = [0, 1]"
    and i: "session_id (sessionObjs (run ?es newService) ! 0) = ''cam''"
    and m: "map_of (sessions (run ?es newService)) ''cam'' = Some 0"
    by (simp_all add: ev)
  from close_tears_session_down [OF h] h c i m show ?thesis
    unfolding Let_def by simp
qed

subsection \<open>Stopping and restarting\<close>

lemma regOk_lookup:
  assumes "regOk st" "map_of (sessions st) k = Some r"
  shows "r < length (sessionObjs st) \<and> session_id (sessionObjs st ! r) = k \<and>
         (\<exists>p. process (sessionObjs st ! r) = Some p \<and> p < length (procObjs st))"
proof -
  from assms(2) have "(k, r) \<in> set (sessions st)" by (rule map_of_SomeD)
  with assms(1) show ?thesis unfolding regOk_def by blast
qed

lemma stopStream_unknown: "map_of (sessions st) k = None \<Longrightarrow> stopStream k st = st"
  by (simp add: stopStream_def)

lemma stopStream_known:
  assumes "map_of (sessions st) k = Some r" "process (sessionObjs st ! r) = Some p"
  shows "stopStream k st =
     st\<lparr>procObjs := (procObjs st)[p := (procObjs st ! p)\<lparr>killed := True\<rparr>],
        sessionObjs := (sessionObjs st)
          [r := (sessionObjs st ! r)\<lparr>isActive := False, initTimer := None, clients := []\<rparr>],
        clientObjs := endClients (clients (sessionObjs st ! r)) (clientObjs st),
        sessions := AList.delete k (sessions st)\<rparr>"
  using assms by (simp add: stopStream_def Let_def)

text \<open>
  C9: in every execution, \<open>stopStream\<close> leaves no registry entry under the identifier
  (no status, not listed), and the session it found is inactive with an empty client
  set; a second call right after the first changes nothing; with an identifier the
  registry does not know the call returns the state as it is. \<open>stopStream\<close> has no
  failing branch: the \<open>kill\<close> is wrapped in \<open>try\<close>.
\<close>

theorem stopStream_idempotent:
  "let st = run es newService; st1 = stopStream sessionId st
   in stopStream sessionId st1 = st1
    \<and> map_of (sessions st1) sessionId = None
    \<and> getSessionStatus sessionId st1 = None
    \<and> sessionId \<notin> set (map status_id (getAllSessions st1))
    \<and> (\<forall>r. map_of (sessions st) sessionId = Some r \<longrightarrow>
          clients (sessionObjs st1 ! r) = [] \<and> \<not> isActive (sessionObjs st1 ! r))
    \<and> (map_of (sessions st) sessionId = None \<longrightarrow> st1 = st)"
proof -
  define st where "st = run es newService"
  define st1 where "st1 = stopStream sessionId st"
  have reg: "regOk st" by (simp add: st_def regOk_reachable)
  have reg1: "regOk st1"
    using regOk_step [OF reg, of "StopStream sessionId"] by (simp add: st1_def)
  have gone: "map_of (sessions st1) sessionId = None"
  proof (cases "map_of (sessions st) sessionId")
    case None
    then show ?thesis by (simp add: st1_def stopStream_unknown)
  next
    case (Some r)
    from regOk_lookup [OF reg Some] obtain p where "process (sessionObjs st ! r) = Some p"
      by blast
    from stopStream_known [OF Some this] show ?thesis
      by (simp add: st1_def map_of_delete_same)
  qed
  then have twice: "stopStream sessionId st1 = st1" by (rule stopStream_unknown)
  from gone have status: "getSessionStatus sessionId st1 = None"
    by (simp add: getSessionStatus_def)
  have "sessionId \<notin> fst ` set (sessions st1)"
    using gone by (simp add: map_of_eq_None_iff)
  then have listed: "sessionId \<notin> set (map status_id (getAllSessions st1))"
    using getAllSessions_ids [OF reg1] by simp
  have found: "clients (sessionObjs st1 ! r) = [] \<and> \<not> isActive (sessionObjs st1 ! r)"
    if "map_of (sessions st) sessionId = Some r" for r
  proof -
    from regOk_lookup [OF reg that] obtain p
      where r: "r < length (sessionObjs st)" and p: "process (sessionObjs st ! r) = Some p"
      by blast
    from stopStream_known [OF that p] r show ?thesis by (simp add: st1_def)
  qed
  have unknown: "map_of (sessions st) sessionId = None \<longrightarrow> st1 = st"
    by (simp add: st1_def stopStream_unknown)
  from twice gone status listed found unknown show ?thesis
    unfolding Let_def st_def [symmetric] st1_def [symmetric] by blast
qed

theorem stopStream_idempotent_witness:
  "let st = run [StartStream ''cam'' ''rtsp://host/1'' True, ProcSpawn 0,
                 GetStreamData ''cam''] newService;
       st1 = stopStream ''cam'' st
   in map_of (sessions st) ''cam'' = Some 0 \<and> map_of (sessions st) ''other'' = None
    \<and> clients (sessionObjs st ! 0) = [0] \<and> isActive (sessionObjs st ! 0)
    \<and> stopStream ''cam'' st1 = st1
    \<and> getSessionStatus ''cam'' st1 = None
    \<and> clients (sessionObjs st1 ! 0) = [] \<and> \<not> isActive (sessionObjs st1 ! 0)
    \<and> stopStream ''other'' st = st"
proof -
  let ?es = "[StartStream ''cam'' ''rtsp://host/1'' True, ProcSpawn 0, GetStreamData ''cam'']"
  have known: "map_of (sessions (run ?es newService)) ''cam'' = Some 0"
    and unknown: "map_of (sessions (run ?es newService)) ''other'' = None"
    and before: "clients (sessionObjs (run ?es newService) ! 0) = [0]"
      "isActive (sessionObjs (run ?es newService) ! 0)"
    by (simp_all add: ev)
  from stopStream_idempotent [of ?es "''cam''"] stopStream_idempotent [of ?es "''other''"]
    known unknown before
  show ?thesis unfolding Let_def by simp
qed

text \<open>
  C10: in every execution, when the registry has a session under the identifier and that
  session is not active, \<open>startStream\<close> does not resolve early. When \<open>spawn\<close> returns a
  process, a new process and a new session object holding it are created and the registry
  entry of the identifier points to the new object; the previous session object is left
  as it was (it still holds its own, different process), no process is killed and no
  client stream is touched.
\<close>

theorem startStream_replaces_inactive:
  assumes "map_of (sessions (run es newService)) sessionId = Some r"
    and "\<not> isActive (sessionObjs (run es newService) ! r)"
  shows "let st = run es newService; res = startStream sessionId url spawnOk st;
             st' = snd res; new = length (sessionObjs st)
         in fst res \<noteq> ResolvedExisting
          \<and> (spawnOk \<longrightarrow>
               fst res = Pending
             \<and> procObjs st' = procObjs st @ [\<lparr>killed = False\<rparr>]
             \<and> map_of (sessions st') sessionId = Some new
             \<and> new \<noteq> r
             \<and> length (sessionObjs st') = Suc new
             \<and> process (sessionObjs st' ! new) = Some (length (procObjs st))
             \<and> process (sessionObjs st' ! r) \<noteq> Some (length (procObjs st))
             \<and> sessionObjs st' ! r = sessionObjs st ! r
             \<and> clientObjs st' = clientObjs st)"
proof -
  define st where "st = run es newService"
  have reg: "regOk st" by (simp add: st_def regOk_reachable)
  have look: "map_of (sessions st) sessionId = Some r"
    and inactive: "\<not> isActive (sessionObjs st ! r)"
    using assms by (simp_all add: st_def)
  from regOk_lookup [OF reg look] obtain p
    where r: "r < length (sessionObjs st)" and p: "process (sessionObjs st ! r) = Some p"
      and p': "p < length (procObjs st)"
    by blast
  from look inactive r p p' show ?thesis
    unfolding Let_def st_def [symmetric]
    by (simp add: startStream_def Let_def nth_append AList.update_conv')
qed

theorem startStream_replaces_inactive_witness:
  "let st = run [StartStream ''cam'' ''rtsp://host/1'' True, ProcSpawn 0, ProcError 0]
              newService;
       res = startStream ''cam'' ''rtsp://host/1'' True st; st' = snd res
   in map_of (sessions st) ''cam'' = Some 0 \<and> \<not> isActive (sessionObjs st ! 0)
    \<and> fst res = Pending
    \<and> map_of (sessions st') ''cam'' = Some 1
    \<and> length (procObjs st') = 2
    \<and> process (sessionObjs st' ! 1) = Some 1
    \<and> process (sessionObjs st' ! 0) = Some 0
    \<and> \<not> killed (procObjs st' ! 0)"
proof -
  let ?es = "[StartStream ''cam'' ''rtsp://host/1'' True, ProcSpawn 0, ProcError 0]"
  have h1: "map_of (sessions (run ?es newService)) ''cam'' = Some 0"
    and h2: "\<not> isActive (sessionObjs (run ?es newService) ! 0)"
    by (simp_all add: ev)
  have more: "length (sessionObjs (run ?es newService)) = 1"
    "procObjs (run ?es newService) = [\<lparr>killed = False\<rparr>]"
    "process (sessionObjs (run ?es newService) ! 0) = Some 0"
    by (simp_all add: ev)
  from startStream_replaces_inactive [OF h1 h2, of "''rtsp://host/1''" True] h1 h2 more
  show ?thesis unfolding Let_def by simp
qed

subsection \<open>What the clients receive\<close>

lemma writeClients_writableEnded [simp]:
  "writableEnded (writeClients cs b qs ! i) = writableEnded (qs ! i)"
  by (rule writeClients_field) (simp add: pt_write_def)

lemma endClients_destroyed [simp]:
  "destroyed (endClients cs qs ! i) = destroyed (qs ! i)"
  by (rule endClients_field) (simp add: pt_end_def)

lemma firstOk_frame:
  assumes "firstOk st c"
    and "written (clientObjs st' ! c) = written (clientObjs st ! c)"
    and "cleanupSession (clientObjs st' ! c) = cleanupSession (clientObjs st ! c)"
    and "destroyed (clientObjs st ! c) \<Longrightarrow> destroyed (clientObjs st' ! c)"
    and "writableEnded (clientObjs st ! c) \<Longrightarrow> writableEnded (clientObjs st' ! c)"
    and "length (sessionObjs st) \<le> length (sessionObjs st')"
    and "cleanupSession (clientObjs st ! c) < length (sessionObjs st) \<Longrightarrow>
         initBuffer (sessionObjs st' ! cleanupSession (clientObjs st ! c)) =
         initBuffer (sessionObjs st ! cleanupSession (clientObjs st ! c))"
    and "cleanupSession (clientObjs st ! c) < length (sessionObjs st) \<Longrightarrow>
         c \<in> set (clients (sessionObjs st' ! cleanupSession (clientObjs st ! c))) \<Longrightarrow>
         c \<in> set (clients (sessionObjs st ! cleanupSession (clientObjs st ! c)))"
  shows "firstOk st' c"
  using assms unfolding firstOk_def Let_def
  by (auto split: option.splits list.splits)

lemma length_sessionObjs_promote [simp]:
  "length (sessionObjs (promote x ib st)) = length (sessionObjs st)"
  by (simp add: promote_def Let_def)

lemma length_clientObjs_promote [simp]:
  "length (clientObjs (promote x ib st)) = length (clientObjs st)"
  by (simp add: promote_def Let_def)

lemma firstOk_promote:
  assumes "clOk st" "x < length (sessionObjs st)" "initBuffer (sessionObjs st ! x) = None"
    and "c < length (clientObjs st)" "firstOk st c"
  shows "firstOk (promote x ib st) c"
proof (cases "cleanupSession (clientObjs st ! c) = x")
  case False
  have notin: "c \<notin> set (clients (sessionObjs st ! x))"
    using clOk_sessionD [OF assms(1,2), of c] False by auto
  then have same: "clientObjs (promote x ib st) ! c = clientObjs st ! c"
    by (simp add: promote_def Let_def writeClients_other)
  show ?thesis
    by (rule firstOk_frame [OF assms(5)])
      (use False same in \<open>simp_all add: promote_def Let_def nth_list_update_any\<close>)
next
  case True
  from assms(3,5) True have empty: "written (clientObjs st ! c) = []"
    by (simp add: firstOk_def Let_def)
  have sess: "sessionObjs (promote x ib st) ! x =
      (sessionObjs st ! x)\<lparr>preInitChunks := [], preInitSize := 0,
                            initBuffer := Some ib, initTimer := None\<rparr>"
    using assms(2) by (simp add: promote_def Let_def)
  have cl: "clientObjs (promote x ib st) = writeClients (clients (sessionObjs st ! x)) ib (clientObjs st)"
    by (simp add: promote_def Let_def)
  show ?thesis
  proof (cases "c \<in> set (clients (sessionObjs st ! x))")
    case False
    then have "clientObjs (promote x ib st) ! c = clientObjs st ! c"
      by (simp add: cl writeClients_other)
    with True empty False assms(2) sess show ?thesis
      by (simp add: firstOk_def Let_def)
  next
    case member: True
    from assms(1,2) have "distinct (clients (sessionObjs st ! x))" by (simp add: clOk_def)
    from writeClients_member [OF this member assms(4), of ib]
    have "clientObjs (promote x ib st) ! c =
          (if destroyed (clientObjs st ! c) then clientObjs st ! c
           else pt_write (clientObjs st ! c) ib)"
      by (simp add: cl)
    with True empty assms(2) sess show ?thesis
      by (simp add: firstOk_def Let_def pt_write_def)
  qed
qed

lemma firstOk_relay:
  assumes "clOk st" "x < length (sessionObjs st)" "initBuffer (sessionObjs st ! x) = Some ib"
    and "c < length (clientObjs st)" "firstOk st c"
  shows "firstOk (st\<lparr>clientObjs := writeClients (clients (sessionObjs st ! x)) b (clientObjs st)\<rparr>) c"
proof (cases "c \<in> set (clients (sessionObjs st ! x))")
  case False
  then have same: "writeClients (clients (sessionObjs st ! x)) b (clientObjs st) ! c = clientObjs st ! c"
    by (rule writeClients_other)
  show ?thesis
    by (rule firstOk_frame [OF assms(5)]) (use same in simp_all)
next
  case True
  from clOk_sessionD [OF assms(1,2) True] have owner: "cleanupSession (clientObjs st ! c) = x"
    by simp
  from assms(1,2) have "distinct (clients (sessionObjs st ! x))" by (simp add: clOk_def)
  from writeClients_member [OF this True assms(4), of b]
  have "writeClients (clients (sessionObjs st ! x)) b (clientObjs st) ! c =
          (if destroyed (clientObjs st ! c) then clientObjs st ! c
           else pt_write (clientObjs st ! c) b)" .
  with assms(2,3,5) owner True show ?thesis
    by (auto simp: firstOk_def Let_def pt_write_def split: list.splits)
qed

lemma firstAll_onStdoutData:
  assumes "clOk st" "firstAll st" "x < length (sessionObjs st)"
  shows "firstAll (onStdoutData x chunk st)"
proof (cases "initBuffer (sessionObjs st ! x)")
  case None
  have buffering: "firstOk (st\<lparr>sessionObjs := (sessionObjs st)
           [x := (sessionObjs st ! x)\<lparr>preInitChunks := p, preInitSize := n\<rparr>]\<rparr>) c"
    if "firstOk st c" for p n c
    by (rule firstOk_frame [OF that]) (auto simp: nth_list_update_any split: if_splits)
  from assms None show ?thesis
    by (simp add: firstAll_def onStdoutData_def Let_def firstOk_promote buffering)
next
  case (Some ib)
  with assms show ?thesis
    by (simp add: firstAll_def onStdoutData_def Let_def firstOk_relay)
qed

lemma firstAll_onInitTimeout:
  assumes "clOk st" "firstAll st" "x < length (sessionObjs st)"
  shows "firstAll (onInitTimeout x st)"
proof (cases "initBuffer (sessionObjs st ! x)")
  case None
  have idle: "firstOk (st\<lparr>sessionObjs := (sessionObjs st)
           [x := (sessionObjs st ! x)\<lparr>initTimer := None\<rparr>]\<rparr>) c"
    if "firstOk st c" for c
    by (rule firstOk_frame [OF that]) (auto simp: nth_list_update_any split: if_splits)
  from assms None show ?thesis
    by (simp add: firstAll_def onInitTimeout_def Let_def firstOk_promote idle)
next
  case (Some ib)
  with assms show ?thesis by (simp add: onInitTimeout_def)
qed


lemma firstOk_teardown:
  assumes "firstOk st c"
    and "sessionObjs st' = (sessionObjs st)
          [x := (sessionObjs st ! x)\<lparr>isActive := False, initTimer := None, clients := []\<rparr>]"
    and "clientObjs st' = endClients cs (clientObjs st)"
  shows "firstOk st' c"
  by (rule firstOk_frame [OF assms(1)])
    (auto simp: assms(2,3) nth_list_update_any endClients_keeps_ended split: if_splits)

lemma firstAll_onClose: "firstAll st \<Longrightarrow> firstAll (onClose x st)"
  unfolding firstAll_def
proof (intro allI impI)
  fix c
  assume a: "\<forall>c<length (clientObjs st). firstOk st c" and "c < length (clientObjs (onClose x st))"
  then have "firstOk st c" by (simp add: onClose_def Let_def)
  then show "firstOk (onClose x st) c"
    by (rule firstOk_teardown) (simp_all add: onClose_def Let_def)
qed

lemma firstAll_stopStream:
  assumes "firstAll st"
  shows "firstAll (stopStream k st)"
proof (cases "map_of (sessions st) k")
  case None
  with assms show ?thesis by (simp add: stopStream_unknown)
next
  case (Some x)
  show ?thesis
  proof (cases "process (sessionObjs st ! x)")
    case None
    with Some assms show ?thesis by (simp add: stopStream_def)
  next
    case (Some p)
    note known = stopStream_known [OF \<open>map_of (sessions st) k = Some x\<close> Some]
    show ?thesis unfolding firstAll_def
    proof (intro allI impI)
      fix c
      assume "c < length (clientObjs (stopStream k st))"
      with assms have "firstOk st c" by (simp add: known firstAll_def)
      then show "firstOk (stopStream k st) c"
        by (rule firstOk_teardown) (simp_all add: known)
    qed
  qed
qed

lemma firstAll_cleanup: "firstAll st \<Longrightarrow> firstAll (cleanup c0 st)"
  unfolding firstAll_def
proof (intro allI impI)
  fix c
  assume "\<forall>c<length (clientObjs st). firstOk st c" and "c < length (clientObjs (cleanup c0 st))"
  then have "firstOk st c" by (simp add: cleanup_def Let_def)
  then show "firstOk (cleanup c0 st) c"
    by (rule firstOk_frame)
      (auto simp: cleanup_def Let_def nth_list_update_any set_delete_def split: if_splits)
qed

lemma firstAll_getStreamData:
  assumes "regOk st" "firstAll st"
  shows "firstAll (snd (getStreamData k st))"
proof (cases "map_of (sessions st) k")
  case None
  with assms show ?thesis by (simp add: getStreamData_def)
next
  case (Some x)
  from regOk_lookup [OF assms(1) Some] have x: "x < length (sessionObjs st)" by simp
  show ?thesis
  proof (cases "source (sessionObjs st ! x) = None \<or> \<not> isActive (sessionObjs st ! x)")
    case True
    with Some assms show ?thesis by (auto simp: getStreamData_def Let_def)
  next
    case False
    define q where "q = (case initBuffer (sessionObjs st ! x) of
        None \<Rightarrow> \<lparr>destroyed = False, writableEnded = False, written = [], cleanupSession = x\<rparr>
      | Some ib \<Rightarrow> pt_write \<lparr>destroyed = False, writableEnded = False, written = [],
                             cleanupSession = x\<rparr> ib)"
    define st' where "st' = st\<lparr>sessionObjs := (sessionObjs st)
          [x := (sessionObjs st ! x)
             \<lparr>clients := set_add (length (clientObjs st)) (clients (sessionObjs st ! x)),
              clientCount := clientCount (sessionObjs st ! x) + 1\<rparr>],
        clientObjs := clientObjs st @ [q]\<rparr>"
    have res: "snd (getStreamData k st) = st'"
      using Some False by (auto simp: getStreamData_def Let_def st'_def q_def)
    have old: "firstOk st' c" if "c < length (clientObjs st)" for c
    proof -
      from assms(2) that have "firstOk st c" by (simp add: firstAll_def)
      then show ?thesis
        by (rule firstOk_frame)
          (use that in \<open>auto simp: st'_def nth_append nth_list_update_any set_add_def
             split: if_splits\<close>)
    qed
    have new: "firstOk st' (length (clientObjs st))"
      using x by (simp add: firstOk_def st'_def q_def Let_def pt_write_def split: option.splits)
    have "firstOk st' c" if "c < length (clientObjs st')" for c
    proof (cases "c < length (clientObjs st)")
      case True
      then show ?thesis by (rule old)
    next
      case False
      with that have "c = length (clientObjs st)" by (simp add: st'_def)
      with new show ?thesis by simp
    qed
    then show ?thesis by (simp add: res firstAll_def)
  qed
qed

lemma clientObjs_startStream [simp]:
  "clientObjs (snd (startStream k u ok st)) = clientObjs st"
  by (simp add: startStream_def Let_def split: option.splits)

lemma firstAll_step:
  assumes "regOk st" "clOk st" "firstAll st"
  shows "firstAll (step e st)"
proof (cases e)
  case (StartStream sessionId url spawnOk)
  have "firstOk (snd (startStream sessionId url spawnOk st)) c" if "firstOk st c" for c
    by (rule firstOk_frame [OF that])
      (auto simp: startStream_def Let_def nth_append split: option.splits if_splits)
  with assms(3) StartStream show ?thesis by (simp add: firstAll_def)
next
  case (ProcSpawn x)
  have "firstOk (onSpawn x st) c" if "firstOk st c" for c
    by (rule firstOk_frame [OF that])
      (auto simp: onSpawn_def Let_def nth_list_update_any split: if_splits)
  with assms(3) ProcSpawn show ?thesis
    by (simp add: firstAll_def onSession_def onSpawn_def Let_def)
next
  case (ProcError x)
  have "firstOk (onError x st) c" if "firstOk st c" for c
    by (rule firstOk_frame [OF that])
      (auto simp: onError_def Let_def nth_list_update_any split: if_splits)
  with assms(3) ProcError show ?thesis
    by (simp add: firstAll_def onSession_def onError_def Let_def)
next
  case (ProcClose x)
  with assms(3) show ?thesis by (simp add: onSession_def firstAll_onClose)
next
  case (StdoutData x chunk)
  with assms show ?thesis by (simp add: onSession_def firstAll_onStdoutData)
next
  case (InitTimeout x)
  with assms show ?thesis by (simp add: onSession_def firstAll_onInitTimeout)
next
  case (GetStreamData sessionId)
  with assms show ?thesis by (simp add: firstAll_getStreamData)
next
  case (StopStream sessionId)
  with assms(3) show ?thesis by (simp add: firstAll_stopStream)
next
  case (ClientDestroy c0)
  have "firstOk (st\<lparr>clientObjs := (clientObjs st)[c0 := (clientObjs st ! c0)\<lparr>destroyed := True\<rparr>]\<rparr>) c"
    if "firstOk st c" for c
    by (rule firstOk_frame [OF that]) (simp_all add: nth_list_update_any)
  with assms(3) ClientDestroy show ?thesis by (simp add: firstAll_def)
next
  case (ClientEmit c0 ev)
  with assms(3) show ?thesis by (simp add: firstAll_cleanup)
qed

lemma invariants_run:
  "regOk st \<Longrightarrow> clOk st \<Longrightarrow> firstAll st \<Longrightarrow> firstAll (run es st)"
  by (induction es arbitrary: st) (simp_all add: regOk_step clOk_step firstAll_step)

lemma firstAll_reachable: "firstAll (run es newService)"
  by (rule invariants_run) (simp_all add: regOk_def clOk_def firstAll_def newService_def)

text \<open>
  C7: in every execution, a stream in the client set of a session without \<open>initBuffer\<close>
  has received nothing; once the session has its \<open>initBuffer\<close>, what such a stream has
  received starts with exactly that buffer, and it is still empty only if the stream was
  destroyed or ended (the loop skips destroyed streams).
\<close>

theorem nothing_written_before_init:
  assumes "r < length (sessionObjs (run es newService))"
    and "c \<in> set (clients (sessionObjs (run es newService) ! r))"
  shows "let st = run es newService; session = sessionObjs st ! r; q = clientObjs st ! c
         in (initBuffer session = None \<longrightarrow> written q = [])
          \<and> (\<forall>b. initBuffer session = Some b \<longrightarrow>
                (\<exists>rest. written q = b # rest) \<or>
                (written q = [] \<and> (destroyed q \<or> writableEnded q)))"
proof -
  define st where "st = run es newService"
  have r: "r < length (sessionObjs st)" and c: "c \<in> set (clients (sessionObjs st ! r))"
    using assms by (simp_all add: st_def)
  have "clOk st" by (simp add: st_def clOk_reachable)
  from clOk_sessionD [OF this r c]
  have valid: "c < length (clientObjs st)" and owner: "cleanupSession (clientObjs st ! c) = r"
    by simp_all
  have "firstAll st" by (simp add: st_def firstAll_reachable)
  with valid have "firstOk st c" by (simp add: firstAll_def)
  with owner c show ?thesis
    unfolding Let_def st_def [symmetric]
    by (auto simp: firstOk_def Let_def split: option.splits list.splits)
qed

theorem nothing_written_before_init_witness:
  "let es = [StartStream ''cam'' ''rtsp://host/1'' True, ProcSpawn 0, GetStreamData ''cam'',
             StdoutData 0 ''0123456789'', InitTimeout 0];
       st = run es newService;
       st2 = run (es @ [GetStreamData ''cam'', StdoutData 0 ''abcdefghij'']) newService
   in 0 < length (sessionObjs st) \<and> clients (sessionObjs st ! 0) = [0]
    \<and> initBuffer (sessionObjs st ! 0) = Some ''0123456789''
    \<and> written (clientObjs st ! 0) = [''0123456789'']
    \<and> 0 < length (sessionObjs st2) \<and> clients (sessionObjs st2 ! 0) = [0, 1]
    \<and> written (clientObjs st2 ! 1) = [''0123456789'', ''abcdefghij'']"
proof -
  let ?es = "[StartStream ''cam'' ''rtsp://host/1'' True, ProcSpawn 0, GetStreamData ''cam'',
              StdoutData 0 ''0123456789'', InitTimeout 0]"
  let ?es2 = "?es @ [GetStreamData ''cam'', StdoutData 0 ''abcdefghij'']"
  have h: "0 < length (sessionObjs (run ?es newService))"
    "0 \<in> set (clients (sessionObjs (run ?es newService) ! 0))"
    and v: "clients (sessionObjs (run ?es newService) ! 0) = [0]"
      "initBuffer (sessionObjs (run ?es newService) ! 0) = Some ''0123456789''"
      "\<not> destroyed (clientObjs (run ?es newService) ! 0)"
      "\<not> writableEnded (clientObjs (run ?es newService) ! 0)"
    by (simp_all add: ev MAX_PREINIT_BYTES_def)
  from nothing_written_before_init [OF h] v
  have "\<exists>rest. written (clientObjs (run ?es newService) ! 0) = ''0123456789'' # rest"
    unfolding Let_def by simp
  moreover have "length (written (clientObjs (run ?es newService) ! 0)) = 1"
    by (simp add: ev MAX_PREINIT_BYTES_def)
  ultimately have w: "written (clientObjs (run ?es newService) ! 0) = [''0123456789'']"
    by auto
  have rest: "0 < length (sessionObjs (run ?es2 newService))"
    "clients (sessionObjs (run ?es2 newService) ! 0) = [0, 1]"
    "written (clientObjs (run ?es2 newService) ! 1) = [''0123456789'', ''abcdefghij'']"
    by (simp_all add: ev MAX_PREINIT_BYTES_def)
  from h v w rest show ?thesis unfolding Let_def by simp
qed

subsection \<open>Late joiners\<close>

lemma step_written_extends:
  assumes "c < length (clientObjs st)"
  shows "c < length (clientObjs (step e st)) \<and>
         (\<exists>ws. written (clientObjs (step e st) ! c) = written (clientObjs st ! c) @ ws)"
proof (cases e)
  case (StartStream sessionId url spawnOk)
  with assms show ?thesis by simp
next
  case (ProcSpawn x)
  with assms show ?thesis by (simp add: onSession_def onSpawn_def Let_def)
next
  case (ProcError x)
  with assms show ?thesis by (simp add: onSession_def onError_def Let_def)
next
  case (ProcClose x)
  with assms show ?thesis by (simp add: onSession_def onClose_def Let_def)
next
  case (StdoutData x chunk)
  with assms show ?thesis
    by (simp add: onSession_def onStdoutData_def promote_def Let_def writeClients_extends
        split: option.splits)
next
  case (InitTimeout x)
  with assms show ?thesis
    by (simp add: onSession_def onInitTimeout_def promote_def Let_def writeClients_extends
        split: option.splits)
next
  case (GetStreamData sessionId)
  with assms show ?thesis
    by (simp add: getStreamData_def Let_def nth_append split: option.splits)
next
  case (StopStream sessionId)
  with assms show ?thesis by (simp add: stopStream_def Let_def split: option.splits)
next
  case (ClientDestroy c0)
  with assms show ?thesis by (simp add: nth_list_update_any)
next
  case (ClientEmit c0 ev)
  with assms show ?thesis by (simp add: cleanup_def Let_def)
qed

lemma run_written_extends:
  "c < length (clientObjs st) \<Longrightarrow>
   c < length (clientObjs (run es st)) \<and>
   (\<exists>ws. written (clientObjs (run es st) ! c) = written (clientObjs st ! c) @ ws)"
proof (induction es arbitrary: st)
  case Nil
  then show ?case by simp
next
  case (Cons e es)
  from step_written_extends [OF Cons.prems, of e]
  obtain ws where 1: "c < length (clientObjs (step e st))"
    and 2: "written (clientObjs (step e st) ! c) = written (clientObjs st ! c) @ ws"
    by blast
  from Cons.IH [OF 1] obtain vs
    where "c < length (clientObjs (run es (step e st)))"
      and "written (clientObjs (run es (step e st)) ! c) = written (clientObjs (step e st) ! c) @ vs"
    by blast
  with 2 show ?case by simp
qed

text \<open>
  C6: in every execution, when a client attaches to a session whose \<open>initBuffer\<close> is
  already set, its stream holds exactly that buffer when \<open>getStreamData\<close> returns; whatever
  happens afterwards, the buffer stays the first chunk of the stream, and the next chunk
  of the process is queued right behind it.
\<close>

theorem late_joiner_gets_init_first:
  assumes "getInitSegment sessionId (run es newService) = Some b"
    and "getStreamData sessionId (run es newService) = (Some c, st')"
  shows "written (clientObjs st' ! c) = [b]
       \<and> (\<exists>rest. written (clientObjs (run es' st') ! c) = b # rest)
       \<and> (\<forall>r. map_of (sessions (run es newService)) sessionId = Some r \<longrightarrow>
            written (clientObjs (step (StdoutData r chunk) st') ! c) = [b, chunk])"
proof -
  define st where "st = run es newService"
  from assms(1) obtain x where look: "map_of (sessions st) sessionId = Some x"
    and init: "initBuffer (sessionObjs st ! x) = Some b"
    by (auto simp: getInitSegment_def st_def split: option.splits)
  have reg: "regOk st" and cl: "clOk st" by (simp_all add: st_def regOk_reachable clOk_reachable)
  from regOk_lookup [OF reg look] have x: "x < length (sessionObjs st)" by simp
  define q where "q = \<lparr>destroyed = False, writableEnded = False, written = [b],
                        cleanupSession = x\<rparr>"
  from assms(2) look init
  have c: "c = length (clientObjs st)"
    and st': "st' = st\<lparr>sessionObjs := (sessionObjs st)
          [x := (sessionObjs st ! x)
             \<lparr>clients := set_add (length (clientObjs st)) (clients (sessionObjs st ! x)),
              clientCount := clientCount (sessionObjs st ! x) + 1\<rparr>],
        clientObjs := clientObjs st @ [q]\<rparr>"
    by (auto simp: getStreamData_def Let_def st_def [symmetric] q_def pt_write_def
        split: if_splits)
  have first: "written (clientObjs st' ! c) = [b]" and valid: "c < length (clientObjs st')"
    and fresh: "clientObjs st' ! c = q"
    by (simp_all add: st' c q_def)
  from run_written_extends [OF valid, of es'] first
  have later: "\<exists>rest. written (clientObjs (run es' st') ! c) = b # rest" by auto
  have "st' = step (GetStreamData sessionId) st"
    using assms(2) by (simp add: st_def)
  with clOk_step [OF cl, of "GetStreamData sessionId"] have cl': "clOk st'" by simp
  have x': "x < length (sessionObjs st')" using x by (simp add: st')
  from cl' x' have dist: "distinct (clients (sessionObjs st' ! x))" by (simp add: clOk_def)
  have mem: "c \<in> set (clients (sessionObjs st' ! x))"
    using x by (simp add: st' c set_add_def)
  have init': "initBuffer (sessionObjs st' ! x) = Some b"
    using x init by (simp add: st')
  have "clientObjs (step (StdoutData x chunk) st') =
        writeClients (clients (sessionObjs st' ! x)) chunk (clientObjs st')"
    using x' init' by (simp add: onSession_def onStdoutData_def)
  with writeClients_member [OF dist mem valid, of chunk] fresh
  have next_chunk: "written (clientObjs (step (StdoutData x chunk) st') ! c) = [b, chunk]"
    by (simp add: q_def pt_write_def)
  from first later next_chunk look show ?thesis
    unfolding st_def [symmetric] by simp
qed

theorem late_joiner_gets_init_first_witness:
  "let st = run [StartStream ''cam'' ''rtsp://host/1'' True, ProcSpawn 0,
                 StdoutData 0 ''....ftyp....''] newService;
       res = getStreamData ''cam'' st
   in getInitSegment ''cam'' st = Some ''....ftyp....''
    \<and> fst res = Some 0
    \<and> written (clientObjs (snd res) ! 0) = [''....ftyp....'']
    \<and> (\<exists>rest. written (clientObjs (run [StdoutData 0 ''abc'', ClientEmit 0 Close,
              StdoutData 0 ''def'', StopStream ''cam''] (snd res)) ! 0) = ''....ftyp....'' # rest)
    \<and> written (clientObjs (step (StdoutData 0 ''moof'') (snd res)) ! 0) =
        [''....ftyp....'', ''moof'']"
proof -
  let ?st = "run [StartStream ''cam'' ''rtsp://host/1'' True, ProcSpawn 0,
                 StdoutData 0 ''....ftyp....''] newService"
  have h1: "getInitSegment ''cam'' ?st = Some ''....ftyp....''"
    by (simp add: ev getInitSegment_def MAX_PREINIT_BYTES_def)
  have f: "fst (getStreamData ''cam'' ?st) = Some 0"
    and m: "map_of (sessions ?st) ''cam'' = Some 0"
    by (simp_all add: ev MAX_PREINIT_BYTES_def)
  then have h2: "getStreamData ''cam'' ?st = (Some 0, snd (getStreamData ''cam'' ?st))"
    by (metis prod.collapse)
  from late_joiner_gets_init_first [OF h1 h2,
      of "[StdoutData 0 ''abc'', ClientEmit 0 Close, StdoutData 0 ''def'', StopStream ''cam'']"
         "''moof''"] m
  have "written (clientObjs (snd (getStreamData ''cam'' ?st)) ! 0) = [''....ftyp....'']
      \<and> (\<exists>rest. written (clientObjs (run [StdoutData 0 ''abc'', ClientEmit 0 Close,
              StdoutData 0 ''def'', StopStream ''cam''] (snd (getStreamData ''cam'' ?st))) ! 0) =
              ''....ftyp....'' # rest)
      \<and> written (clientObjs (step (StdoutData 0 ''moof'') (snd (getStreamData ''cam'' ?st))) ! 0) =
          [''....ftyp....'', ''moof'']"
    by blast
  with h1 f show ?thesis unfolding Let_def by blast
qed

subsection \<open>Buffering until the init segment is found\<close>

lemma sizeOk_step: "sizeOk st \<Longrightarrow> sizeOk (step e st)"
proof (cases e)
  case (StartStream sessionId url spawnOk)
  assume "sizeOk st"
  with StartStream show ?thesis
    by (auto simp: sizeOk_def startStream_def Let_def nth_append less_Suc_eq
        split: option.splits)
next
  case (ProcSpawn x)
  assume "sizeOk st"
  with ProcSpawn show ?thesis
    by (simp add: sizeOk_def onSession_def onSpawn_def Let_def nth_list_update_any)
next
  case (ProcError x)
  assume "sizeOk st"
  with ProcError show ?thesis
    by (simp add: sizeOk_def onSession_def onError_def Let_def nth_list_update_any)
next
  case (ProcClose x)
  assume "sizeOk st"
  with ProcClose show ?thesis
    by (simp add: sizeOk_def onSession_def onClose_def Let_def nth_list_update_any)
next
  case (StdoutData x chunk)
  assume "sizeOk st"
  with StdoutData show ?thesis
    by (simp add: sizeOk_def onSession_def onStdoutData_def promote_def Let_def
        nth_list_update_any split: option.splits)
next
  case (InitTimeout x)
  assume "sizeOk st"
  with InitTimeout show ?thesis
    by (simp add: sizeOk_def onSession_def onInitTimeout_def promote_def Let_def
        nth_list_update_any split: option.splits)
next
  case (GetStreamData sessionId)
  assume "sizeOk st"
  with GetStreamData show ?thesis
    by (simp add: sizeOk_def getStreamData_def Let_def nth_list_update_any
        split: option.splits)
next
  case (StopStream sessionId)
  assume "sizeOk st"
  with StopStream show ?thesis
    by (simp add: sizeOk_def stopStream_def Let_def nth_list_update_any split: option.splits)
next
  case (ClientDestroy c)
  assume "sizeOk st"
  with ClientDestroy show ?thesis by (simp add: sizeOk_def)
next
  case (ClientEmit c ev)
  assume "sizeOk st"
  with ClientEmit show ?thesis by (simp add: sizeOk_def cleanup_def Let_def nth_list_update_any)
qed

lemma sizeOk_run: "sizeOk st \<Longrightarrow> sizeOk (run es st)"
  by (induction es arbitrary: st) (simp_all add: sizeOk_step)

lemma sizeOk_reachable: "sizeOk (run es newService)"
  by (rule sizeOk_run) (simp add: sizeOk_def newService_def)

lemma indexOf_from_append:
  "indexOf_from xs pat i \<noteq> - 1 \<Longrightarrow> indexOf_from (xs @ ys) pat i \<noteq> - 1"
proof (induction xs arbitrary: i)
  case Nil
  then have "pat = []" by (simp split: if_splits)
  then show ?case by (cases ys) simp_all
next
  case (Cons x xs)
  show ?case
  proof (cases "take (length pat) (x # xs) = pat")
    case True
    then have "length (take (length pat) (x # xs)) = length pat" by simp
    then have "length pat \<le> length (x # xs)"
      unfolding length_take by (simp add: min_def split: if_splits)
    then have "take (length pat - length (x # xs)) ys = []" by simp
    moreover have "take (length pat) ((x # xs) @ ys) =
        take (length pat) (x # xs) @ take (length pat - length (x # xs)) ys"
      by (rule take_append)
    ultimately have "take (length pat) ((x # xs) @ ys) = pat" using True by simp
    then have "take (length pat) (x # (xs @ ys)) = pat" by simp
    then show ?thesis by (simp del: take_Suc_Cons)
  next
    case False
    with Cons.prems have "indexOf_from xs pat (Suc i) \<noteq> - 1" by simp
    from Cons.IH [OF this] show ?thesis by simp
  qed
qed

lemma hasInitMarker_append: "hasInitMarker xs \<Longrightarrow> hasInitMarker (xs @ ys)"
  unfolding hasInitMarker_def indexOf_def Let_def
  using indexOf_from_append by blast

lemma run_append: "run (es @ es') st = run es' (run es st)"
  by (induction es arbitrary: st) simp_all

text \<open>
  Chunks that neither complete a marker nor push the size over the cap are appended to
  \<open>preInitChunks\<close>, and nothing else changes.
\<close>

lemma buffering:
  assumes "r < length (sessionObjs st)" "initBuffer (sessionObjs st ! r) = None"
    and "preInitSize (sessionObjs st ! r) = length (concat (preInitChunks (sessionObjs st ! r)))"
    and "\<not> hasInitMarker (concat (preInitChunks (sessionObjs st ! r) @ cs))"
    and "length (concat (preInitChunks (sessionObjs st ! r) @ cs)) \<le> MAX_PREINIT_BYTES"
  shows "run (map (StdoutData r) cs) st =
         st\<lparr>sessionObjs := (sessionObjs st)
              [r := (sessionObjs st ! r)
                 \<lparr>preInitChunks := preInitChunks (sessionObjs st ! r) @ cs,
                  preInitSize := length (concat (preInitChunks (sessionObjs st ! r) @ cs))\<rparr>]\<rparr>"
  using assms
proof (induction cs arbitrary: st)
  case Nil
  have "(sessionObjs st ! r)\<lparr>preInitSize := preInitSize (sessionObjs st ! r)\<rparr> =
        sessionObjs st ! r"
    by simp
  with Nil.prems(3)
  have "(sessionObjs st ! r)
          \<lparr>preInitSize := length (concat (preInitChunks (sessionObjs st ! r)))\<rparr> =
        sessionObjs st ! r"
    by simp
  then show ?case by simp
next
  case (Cons c cs)
  let ?s = "sessionObjs st ! r"
  let ?s1 = "?s\<lparr>preInitChunks := preInitChunks ?s @ [c],
                  preInitSize := preInitSize ?s + length c\<rparr>"
  let ?st1 = "st\<lparr>sessionObjs := (sessionObjs st)[r := ?s1]\<rparr>"
  have "\<not> hasInitMarker (concat (preInitChunks ?s @ [c]))"
  proof
    assume "hasInitMarker (concat (preInitChunks ?s @ [c]))"
    then have "hasInitMarker (concat (preInitChunks ?s @ [c]) @ concat cs)"
      by (rule hasInitMarker_append)
    with Cons.prems(4) show False by simp
  qed
  moreover have "\<not> preInitSize ?s + length c > MAX_PREINIT_BYTES"
    using Cons.prems(3,5) by simp
  ultimately have step: "step (StdoutData r c) st = ?st1"
    using Cons.prems(1,2) by (simp add: onSession_def onStdoutData_def Let_def)
  have "run (map (StdoutData r) (c # cs)) st =
        run (map (StdoutData r) cs) (step (StdoutData r c) st)"
    by simp
  also have "\<dots> = run (map (StdoutData r) cs) ?st1" by (simp only: step)
  also have "\<dots> =
         ?st1\<lparr>sessionObjs := (sessionObjs ?st1)
              [r := (sessionObjs ?st1 ! r)
                 \<lparr>preInitChunks := preInitChunks (sessionObjs ?st1 ! r) @ cs,
                  preInitSize := length (concat (preInitChunks (sessionObjs ?st1 ! r) @ cs))\<rparr>]\<rparr>"
    by (rule Cons.IH) (use Cons.prems in simp_all)
  also have "\<dots> =
         st\<lparr>sessionObjs := (sessionObjs st)
              [r := (sessionObjs st ! r)
                 \<lparr>preInitChunks := preInitChunks (sessionObjs st ! r) @ c # cs,
                  preInitSize :=
                    length (concat (preInitChunks (sessionObjs st ! r) @ c # cs))\<rparr>]\<rparr>"
    using Cons.prems(1) by simp
  finally show ?case .
qed

text \<open>The chunk that completes a marker or pushes the size over the cap commits everything.\<close>

lemma resolving:
  assumes "r < length (sessionObjs st)" "initBuffer (sessionObjs st ! r) = None"
    and "hasInitMarker (concat (preInitChunks (sessionObjs st ! r) @ [c])) \<or>
         preInitSize (sessionObjs st ! r) + length c > MAX_PREINIT_BYTES"
  shows "step (StdoutData r c) st = promote r (concat (preInitChunks (sessionObjs st ! r) @ [c])) st"
  using assms by (auto simp: onSession_def onStdoutData_def Let_def)

lemma indexOf_from_replicate:
  "pat \<noteq> [] \<Longrightarrow> hd pat \<noteq> a \<Longrightarrow> indexOf_from (replicate n a) pat i = - 1"
proof (induction n arbitrary: i)
  case 0
  then show ?case by simp
next
  case (Suc n)
  from Suc.prems obtain p ps where pat: "pat = p # ps" and "p \<noteq> a"
    by (cases pat) auto
  then have "take (length pat) (a # replicate n a) \<noteq> pat" by auto
  with Suc show ?case by simp
qed

lemma hasInitMarker_replicate: "\<not> hasInitMarker (replicate n (CHR ''a''))"
  by (simp add: hasInitMarker_def indexOf_def indexOf_from_replicate)

text \<open>
  C5: in every execution, take a session without \<open>initBuffer\<close> and feed it chunks \<open>cs\<close>
  that complete no marker (and stay within the size cap), then a chunk \<open>c\<close> with which
  the buffered bytes contain a marker. The session stays unresolved during \<open>cs\<close>, and
  processing \<open>c\<close> sets \<open>initBuffer\<close> to everything buffered so far followed by \<open>cs\<close> and
  the whole of \<open>c\<close>. A client that was attached all along (and is neither destroyed nor
  ended) then holds exactly this block, and the following chunk \<open>c3\<close> comes right after it.
\<close>

theorem marker_resolves_with_whole_buffer:
  assumes "r < length (sessionObjs (run es newService))"
    and "initBuffer (sessionObjs (run es newService) ! r) = None"
    and "\<not> hasInitMarker (concat (preInitChunks (sessionObjs (run es newService) ! r) @ cs))"
    and "length (concat (preInitChunks (sessionObjs (run es newService) ! r) @ cs))
         \<le> MAX_PREINIT_BYTES"
    and "hasInitMarker (concat (preInitChunks (sessionObjs (run es newService) ! r) @ cs @ [c]))"
  shows "let st = run es newService; buffered = preInitChunks (sessionObjs st ! r);
             st1 = run (map (StdoutData r) cs) st;
             st2 = step (StdoutData r c) st1;
             st3 = step (StdoutData r c3) st2
         in initBuffer (sessionObjs st1 ! r) = None
          \<and> initBuffer (sessionObjs st2 ! r) = Some (concat (buffered @ cs @ [c]))
          \<and> (\<forall>q \<in> set (clients (sessionObjs st ! r)).
                \<not> destroyed (clientObjs st ! q) \<and> \<not> writableEnded (clientObjs st ! q) \<longrightarrow>
                written (clientObjs st2 ! q) = [concat (buffered @ cs @ [c])] \<and>
                written (clientObjs st3 ! q) = [concat (buffered @ cs @ [c]), c3])"
proof -
  define st where "st = run es newService"
  define s where "s = sessionObjs st ! r"
  define ib where "ib = concat (preInitChunks s @ cs @ [c])"
  define st1 where "st1 = run (map (StdoutData r) cs) st"
  define st2 where "st2 = step (StdoutData r c) st1"
  define st3 where "st3 = step (StdoutData r c3) st2"
  have r: "r < length (sessionObjs st)" and unset: "initBuffer s = None"
    and quiet: "\<not> hasInitMarker (concat (preInitChunks s @ cs))"
    and small: "length (concat (preInitChunks s @ cs)) \<le> MAX_PREINIT_BYTES"
    and marker: "hasInitMarker (concat (preInitChunks s @ cs @ [c]))"
    using assms by (simp_all add: st_def s_def)
  have cl: "clOk st" and "sizeOk st" by (simp_all add: st_def clOk_reachable sizeOk_reachable)
  with r have size: "preInitSize s = length (concat (preInitChunks s))"
    by (simp add: sizeOk_def s_def)
  have st1: "st1 = st\<lparr>sessionObjs := (sessionObjs st)
        [r := s\<lparr>preInitChunks := preInitChunks s @ cs,
                preInitSize := length (concat (preInitChunks s @ cs))\<rparr>]\<rparr>"
    unfolding st1_def s_def
    by (rule buffering) (use r unset quiet small size in \<open>simp_all add: s_def\<close>)
  have s1: "sessionObjs st1 ! r = s\<lparr>preInitChunks := preInitChunks s @ cs,
                preInitSize := length (concat (preInitChunks s @ cs))\<rparr>"
    and r1: "r < length (sessionObjs st1)" and cl1: "clientObjs st1 = clientObjs st"
    using r by (simp_all add: st1)
  have unset1: "initBuffer (sessionObjs st1 ! r) = None" using unset by (simp add: s1)
  have "st2 = promote r (concat (preInitChunks (sessionObjs st1 ! r) @ [c])) st1"
    unfolding st2_def by (rule resolving [OF r1 unset1]) (use marker in \<open>simp add: s1\<close>)
  then have st2: "st2 = promote r ib st1" by (simp add: s1 ib_def)
  have s2: "sessionObjs st2 ! r = s\<lparr>preInitChunks := [], preInitSize := 0,
                initBuffer := Some ib, initTimer := None\<rparr>"
    and r2: "r < length (sessionObjs st2)"
    and cl2: "clientObjs st2 = writeClients (clients s) ib (clientObjs st)"
    using r1 by (simp_all add: st2 promote_def Let_def s1 cl1)
  have set2: "initBuffer (sessionObjs st2 ! r) = Some ib" by (simp add: s2)
  have cl3: "clientObjs st3 = writeClients (clients s) c3 (clientObjs st2)"
    using r2 set2 by (simp add: st3_def onSession_def onStdoutData_def s2)
  have received: "written (clientObjs st2 ! q) = [ib] \<and> written (clientObjs st3 ! q) = [ib, c3]"
    if q: "q \<in> set (clients s)" and alive: "\<not> destroyed (clientObjs st ! q)"
      "\<not> writableEnded (clientObjs st ! q)" for q
  proof -
    from cl r have dist: "distinct (clients s)" by (simp add: clOk_def s_def)
    from cl r q unset have valid: "q < length (clientObjs st)"
      and empty: "written (clientObjs st ! q) = []"
      by (simp_all add: clOk_def s_def)
    from writeClients_member [OF dist q valid, of ib] alive
    have q2: "clientObjs st2 ! q = pt_write (clientObjs st ! q) ib" by (simp add: cl2)
    with alive empty have w2: "written (clientObjs st2 ! q) = [ib]" by (simp add: pt_write_def)
    from valid have "q < length (clientObjs st2)" by (simp add: cl2)
    from writeClients_member [OF dist q this, of c3] alive
    have "clientObjs st3 ! q = pt_write (clientObjs st2 ! q) c3" by (simp add: cl3 cl2)
    with alive w2 have "written (clientObjs st3 ! q) = [ib, c3]"
      by (simp add: pt_write_def cl2)
    with w2 show ?thesis by simp
  qed
  from unset1 set2 received show ?thesis
    unfolding Let_def st_def [symmetric] s_def [symmetric] st1_def [symmetric]
      st2_def [symmetric] st3_def [symmetric] ib_def [symmetric]
    by blast
qed

theorem marker_resolves_with_whole_buffer_witness:
  "initBuffer (sessionObjs (run [StartStream ''cam'' ''rtsp://host/1'' True, ProcSpawn 0,
       GetStreamData ''cam'', StdoutData 0 ''0123456789'',
       StdoutData 0 ''0123456789moof0123456789012345''] newService) ! 0) =
     Some ''01234567890123456789moof0123456789012345''
   \<and> written (clientObjs (run [StartStream ''cam'' ''rtsp://host/1'' True, ProcSpawn 0,
       GetStreamData ''cam'', StdoutData 0 ''0123456789'',
       StdoutData 0 ''0123456789moof0123456789012345'', StdoutData 0 ''live''] newService) ! 0) =
     [''01234567890123456789moof0123456789012345'', ''live'']"
proof -
  let ?st = "run [StartStream ''cam'' ''rtsp://host/1'' True, ProcSpawn 0,
                  GetStreamData ''cam''] newService"
  let ?cs = "[''0123456789'']"
  let ?c = "''0123456789moof0123456789012345''"
  have pre: "preInitChunks (sessionObjs ?st ! 0) = []" by (simp add: ev)
  have h1: "0 < length (sessionObjs ?st)" by (simp add: ev)
  have h2: "initBuffer (sessionObjs ?st ! 0) = None" by (simp add: ev)
  have h3: "\<not> hasInitMarker (concat (preInitChunks (sessionObjs ?st ! 0) @ ?cs))"
    unfolding pre by (simp add: hasInitMarker_def indexOf_def)
  have h4: "length (concat (preInitChunks (sessionObjs ?st ! 0) @ ?cs)) \<le> MAX_PREINIT_BYTES"
    unfolding pre by (simp add: MAX_PREINIT_BYTES_def)
  have h5: "hasInitMarker (concat (preInitChunks (sessionObjs ?st ! 0) @ ?cs @ [?c]))"
    unfolding pre by (simp add: hasInitMarker_def indexOf_def)
  have alive: "0 \<in> set (clients (sessionObjs ?st ! 0))" "\<not> destroyed (clientObjs ?st ! 0)"
    "\<not> writableEnded (clientObjs ?st ! 0)"
    by (simp_all add: ev)
  note resolved = marker_resolves_with_whole_buffer [OF h1 h2 h3 h4 h5, of "''live''"]
  from resolved
  have "initBuffer (sessionObjs (step (StdoutData 0 ?c) (run (map (StdoutData 0) ?cs) ?st)) ! 0) =
          Some (concat (preInitChunks (sessionObjs ?st ! 0) @ ?cs @ [?c]))"
    unfolding Let_def by blast
  then have A: "initBuffer (sessionObjs (step (StdoutData 0 ?c)
      (run (map (StdoutData 0) ?cs) ?st)) ! 0) = Some ''01234567890123456789moof0123456789012345''"
    unfolding pre by simp
  from resolved alive
  have "written (clientObjs (step (StdoutData 0 ''live'') (step (StdoutData 0 ?c)
            (run (map (StdoutData 0) ?cs) ?st))) ! 0) =
          [concat (preInitChunks (sessionObjs ?st ! 0) @ ?cs @ [?c]), ''live'']"
    unfolding Let_def by blast
  then have B: "written (clientObjs (step (StdoutData 0 ''live'') (step (StdoutData 0 ?c)
      (run (map (StdoutData 0) ?cs) ?st))) ! 0) =
      [''01234567890123456789moof0123456789012345'', ''live'']"
    unfolding pre by simp
  from A B show ?thesis by simp
qed

text \<open>
  C4, as the code has it: the cap resolves when the buffered bytes \<^emph>\<open>exceed\<close>
  \<open>MAX_PREINIT_BYTES\<close>. In every execution, take a session without \<open>initBuffer\<close> and feed
  it marker-free chunks \<open>cs\<close> whose total stays within the cap, then a chunk \<open>c\<close> (still
  no marker) that takes the total over the cap. The session stays unresolved and no
  client is written to during \<open>cs\<close>; processing \<open>c\<close> sets \<open>initBuffer\<close> to everything
  buffered so far followed by \<open>cs\<close> and \<open>c\<close>.
\<close>

theorem size_cap_resolves_with_whole_buffer:
  assumes "r < length (sessionObjs (run es newService))"
    and "initBuffer (sessionObjs (run es newService) ! r) = None"
    and "\<not> hasInitMarker (concat (preInitChunks (sessionObjs (run es newService) ! r) @ cs @ [c]))"
    and "length (concat (preInitChunks (sessionObjs (run es newService) ! r) @ cs))
         \<le> MAX_PREINIT_BYTES"
    and "length (concat (preInitChunks (sessionObjs (run es newService) ! r) @ cs @ [c]))
         > MAX_PREINIT_BYTES"
  shows "let st = run es newService; buffered = preInitChunks (sessionObjs st ! r);
             st1 = run (map (StdoutData r) cs) st;
             st2 = step (StdoutData r c) st1
         in initBuffer (sessionObjs st1 ! r) = None
          \<and> clientObjs st1 = clientObjs st
          \<and> initBuffer (sessionObjs st2 ! r) = Some (concat (buffered @ cs @ [c]))"
proof -
  define st where "st = run es newService"
  define s where "s = sessionObjs st ! r"
  define st1 where "st1 = run (map (StdoutData r) cs) st"
  define st2 where "st2 = step (StdoutData r c) st1"
  have r: "r < length (sessionObjs st)" and unset: "initBuffer s = None"
    and nomarker: "\<not> hasInitMarker (concat (preInitChunks s @ cs @ [c]))"
    and small: "length (concat (preInitChunks s @ cs)) \<le> MAX_PREINIT_BYTES"
    and large: "length (concat (preInitChunks s @ cs @ [c])) > MAX_PREINIT_BYTES"
    using assms by (simp_all add: st_def s_def)
  have "sizeOk st" by (simp add: st_def sizeOk_reachable)
  with r have size: "preInitSize s = length (concat (preInitChunks s))"
    by (simp add: sizeOk_def s_def)
  have quiet: "\<not> hasInitMarker (concat (preInitChunks s @ cs))"
  proof
    assume "hasInitMarker (concat (preInitChunks s @ cs))"
    then have "hasInitMarker (concat (preInitChunks s @ cs) @ c)" by (rule hasInitMarker_append)
    with nomarker show False by simp
  qed
  have st1: "st1 = st\<lparr>sessionObjs := (sessionObjs st)
        [r := s\<lparr>preInitChunks := preInitChunks s @ cs,
                preInitSize := length (concat (preInitChunks s @ cs))\<rparr>]\<rparr>"
    unfolding st1_def s_def
    by (rule buffering) (use r unset quiet small size in \<open>simp_all add: s_def\<close>)
  have s1: "sessionObjs st1 ! r = s\<lparr>preInitChunks := preInitChunks s @ cs,
                preInitSize := length (concat (preInitChunks s @ cs))\<rparr>"
    and r1: "r < length (sessionObjs st1)" and cl1: "clientObjs st1 = clientObjs st"
    using r by (simp_all add: st1)
  have unset1: "initBuffer (sessionObjs st1 ! r) = None" using unset by (simp add: s1)
  have "st2 = promote r (concat (preInitChunks (sessionObjs st1 ! r) @ [c])) st1"
    unfolding st2_def by (rule resolving [OF r1 unset1]) (use large in \<open>simp add: s1\<close>)
  then have "initBuffer (sessionObjs st2 ! r) = Some (concat (preInitChunks s @ cs @ [c]))"
    using r1 by (simp add: promote_def Let_def s1)
  with unset1 cl1 show ?thesis
    unfolding Let_def st_def [symmetric] s_def [symmetric] st1_def [symmetric]
      st2_def [symmetric]
    by blast
qed

theorem size_cap_resolves_with_whole_buffer_witness:
  "initBuffer (sessionObjs (run [StartStream ''cam'' ''rtsp://host/1'' True, ProcSpawn 0,
       StdoutData 0 (replicate MAX_PREINIT_BYTES (CHR ''a'')), StdoutData 0 ''a''] newService) ! 0) =
     Some (replicate MAX_PREINIT_BYTES (CHR ''a'') @ ''a'')"
proof -
  let ?st = "run [StartStream ''cam'' ''rtsp://host/1'' True, ProcSpawn 0] newService"
  let ?cs = "[replicate MAX_PREINIT_BYTES (CHR ''a'')]"
  have pre: "preInitChunks (sessionObjs ?st ! 0) = []" by (simp add: ev)
  have h1: "0 < length (sessionObjs ?st)" by (simp add: ev)
  have h2: "initBuffer (sessionObjs ?st ! 0) = None" by (simp add: ev)
  have "\<not> hasInitMarker (replicate (Suc MAX_PREINIT_BYTES) (CHR ''a''))"
    by (rule hasInitMarker_replicate)
  then have h3: "\<not> hasInitMarker (concat (preInitChunks (sessionObjs ?st ! 0) @ ?cs @ [''a'']))"
    unfolding pre by (simp add: replicate_append_same)
  have h4: "length (concat (preInitChunks (sessionObjs ?st ! 0) @ ?cs)) \<le> MAX_PREINIT_BYTES"
    unfolding pre by simp
  have h5: "length (concat (preInitChunks (sessionObjs ?st ! 0) @ ?cs @ [''a'']))
            > MAX_PREINIT_BYTES"
    unfolding pre by simp
  from size_cap_resolves_with_whole_buffer [OF h1 h2 h3 h4 h5]
  have "initBuffer (sessionObjs (step (StdoutData 0 ''a'') (run (map (StdoutData 0) ?cs) ?st)) ! 0) =
          Some (concat (preInitChunks (sessionObjs ?st ! 0) @ ?cs @ [''a'']))"
    unfolding Let_def by blast
  then have "initBuffer (sessionObjs (step (StdoutData 0 ''a'')
      (run (map (StdoutData 0) ?cs) ?st)) ! 0) = Some (replicate MAX_PREINIT_BYTES (CHR ''a'') @ ''a'')"
    unfolding pre by simp
  then show ?thesis by simp
qed

text \<open>
  The claim as the specification words it fails: a marker-free chunk of exactly
  \<open>MAX_PREINIT_BYTES\<close> bytes brings the total to the ceiling, and the session stays
  unresolved, with the chunk buffered.
\<close>

theorem size_cap_not_at_ceiling:
  "length (replicate MAX_PREINIT_BYTES (CHR ''a'')) = MAX_PREINIT_BYTES
   \<and> \<not> hasInitMarker (replicate MAX_PREINIT_BYTES (CHR ''a''))
   \<and> initBuffer (sessionObjs (run [StartStream ''cam'' ''rtsp://host/1'' True, ProcSpawn 0,
        StdoutData 0 (replicate MAX_PREINIT_BYTES (CHR ''a''))] newService) ! 0) = None
   \<and> preInitChunks (sessionObjs (run [StartStream ''cam'' ''rtsp://host/1'' True, ProcSpawn 0,
        StdoutData 0 (replicate MAX_PREINIT_BYTES (CHR ''a''))] newService) ! 0) =
      [replicate MAX_PREINIT_BYTES (CHR ''a'')]"
proof -
  have "\<not> hasInitMarker (replicate MAX_PREINIT_BYTES (CHR ''a''))"
    by (rule hasInitMarker_replicate)
  then show ?thesis
    by (simp add: newService_def startStream_def onSession_def onSpawn_def onStdoutData_def
        Let_def)
qed

subsection \<open>The timer without output\<close>

lemma step_no_output:
  assumes "\<forall>chunk. e \<noteq> StdoutData r chunk"
    and "r < length (sessionObjs st) \<longrightarrow>
         initBuffer (sessionObjs st ! r) = None \<and> preInitChunks (sessionObjs st ! r) = []"
  shows "r < length (sessionObjs (step e st)) \<longrightarrow>
         initBuffer (sessionObjs (step e st) ! r) = None \<and>
         preInitChunks (sessionObjs (step e st) ! r) = []"
proof (cases e)
  case (StartStream sessionId url spawnOk)
  with assms(2) show ?thesis
    by (auto simp: startStream_def Let_def nth_append less_Suc_eq split: option.splits)
next
  case (ProcSpawn x)
  with assms(2) show ?thesis
    by (simp add: onSession_def onSpawn_def Let_def nth_list_update_any)
next
  case (ProcError x)
  with assms(2) show ?thesis
    by (simp add: onSession_def onError_def Let_def nth_list_update_any)
next
  case (ProcClose x)
  with assms(2) show ?thesis
    by (simp add: onSession_def onClose_def Let_def nth_list_update_any)
next
  case (StdoutData x chunk)
  with assms(1) have "x \<noteq> r" by auto
  with StdoutData assms(2) show ?thesis
    by (simp add: onSession_def onStdoutData_def promote_def Let_def nth_list_update_any
        split: option.splits)
next
  case (InitTimeout x)
  with assms(2) show ?thesis
    by (cases "x = r")
      (simp_all add: onSession_def onInitTimeout_def promote_def Let_def nth_list_update_any
        split: option.splits)
next
  case (GetStreamData sessionId)
  with assms(2) show ?thesis
    by (simp add: getStreamData_def Let_def nth_list_update_any split: option.splits)
next
  case (StopStream sessionId)
  with assms(2) show ?thesis
    by (simp add: stopStream_def Let_def nth_list_update_any split: option.splits)
next
  case (ClientDestroy c)
  with assms(2) show ?thesis by simp
next
  case (ClientEmit c ev)
  with assms(2) show ?thesis by (simp add: cleanup_def Let_def nth_list_update_any)
qed

lemma run_no_output:
  assumes "\<forall>chunk. StdoutData r chunk \<notin> set es"
    and "r < length (sessionObjs st) \<longrightarrow>
         initBuffer (sessionObjs st ! r) = None \<and> preInitChunks (sessionObjs st ! r) = []"
  shows "r < length (sessionObjs (run es st)) \<longrightarrow>
         initBuffer (sessionObjs (run es st) ! r) = None \<and>
         preInitChunks (sessionObjs (run es st) ! r) = []"
  using assms
proof (induction es arbitrary: st)
  case Nil
  then show ?case by simp
next
  case (Cons e es)
  from Cons.prems(1) have e: "\<forall>chunk. e \<noteq> StdoutData r chunk"
    and es: "\<forall>chunk. StdoutData r chunk \<notin> set es"
    by auto
  from Cons.IH [OF es step_no_output [OF e Cons.prems(2)]] show ?case by simp
qed

text \<open>
  C2, as the code has it: in every execution in which the process of a session has
  produced no output, the session has no \<open>initBuffer\<close> (however often the timer callback
  ran), and the timer callback only clears the timer handle: \<open>initBuffer\<close> stays unset,
  nothing is sent to the clients.
\<close>

theorem timeout_without_output_leaves_initBuffer_unset:
  assumes "\<forall>chunk. StdoutData r chunk \<notin> set es"
    and "r < length (sessionObjs (run es newService))"
  shows "initBuffer (sessionObjs (run es newService) ! r) = None
       \<and> step (InitTimeout r) (run es newService) =
           (run es newService)\<lparr>sessionObjs := (sessionObjs (run es newService))
              [r := (sessionObjs (run es newService) ! r)\<lparr>initTimer := None\<rparr>]\<rparr>
       \<and> initBuffer (sessionObjs (step (InitTimeout r) (run es newService)) ! r) = None"
proof -
  define st where "st = run es newService"
  have r: "r < length (sessionObjs st)" using assms(2) by (simp add: st_def)
  have "r < length (sessionObjs st) \<longrightarrow>
        initBuffer (sessionObjs st ! r) = None \<and> preInitChunks (sessionObjs st ! r) = []"
    unfolding st_def by (rule run_no_output [OF assms(1)]) (simp add: newService_def)
  with r have quiet: "initBuffer (sessionObjs st ! r) = None"
    "preInitChunks (sessionObjs st ! r) = []"
    by simp_all
  with r show ?thesis
    unfolding st_def [symmetric] by (simp add: onSession_def onInitTimeout_def)
qed

theorem timeout_without_output_leaves_initBuffer_unset_witness:
  "initBuffer (sessionObjs (run [StartStream ''cam'' ''rtsp://host/1'' True, ProcSpawn 0,
       GetStreamData ''cam'', InitTimeout 0] newService) ! 0) = None
   \<and> initBuffer (sessionObjs (step (InitTimeout 0)
        (run [StartStream ''cam'' ''rtsp://host/1'' True, ProcSpawn 0,
              GetStreamData ''cam'', InitTimeout 0] newService)) ! 0) = None"
proof -
  let ?es = "[StartStream ''cam'' ''rtsp://host/1'' True, ProcSpawn 0, GetStreamData ''cam'',
              InitTimeout 0]"
  have h1: "\<forall>chunk. StdoutData 0 chunk \<notin> set ?es" by simp
  have h2: "0 < length (sessionObjs (run ?es newService))" by (simp add: ev)
  from timeout_without_output_leaves_initBuffer_unset [OF h1 h2] show ?thesis by blast
qed

text \<open>
  The claim as the specification words it fails: after a start, the \<open>spawn\<close> event and the
  timer callback, with no output in between, \<open>initBuffer\<close> is not an empty buffer but unset.
\<close>

theorem timeout_without_output_does_not_resolve:
  "initBuffer (sessionObjs (run [StartStream ''cam'' ''rtsp://host/1'' True, ProcSpawn 0,
       InitTimeout 0] newService) ! 0) \<noteq> Some []
   \<and> getInitSegment ''cam'' (run [StartStream ''cam'' ''rtsp://host/1'' True, ProcSpawn 0,
       InitTimeout 0] newService) = None"
  by (simp add: ev getInitSegment_def)

subsection \<open>The client count\<close>

text \<open>
  C3 fails on the code: \<open>cleanup\<close> guards the removal from the set but not the decrement.
  With two clients attached, the first one emitting \<open>error\<close> and then \<open>close\<close> leaves the
  reported count at 0 while the second client is still in the set.
\<close>

theorem clientCount_drifts_from_clients:
  "clientCount (sessionObjs (run [StartStream ''cam'' ''rtsp://host/1'' True, ProcSpawn 0,
       GetStreamData ''cam'', GetStreamData ''cam'', ClientEmit 0 Error, ClientEmit 0 Close]
       newService) ! 0) = 0
   \<and> clients (sessionObjs (run [StartStream ''cam'' ''rtsp://host/1'' True, ProcSpawn 0,
       GetStreamData ''cam'', GetStreamData ''cam'', ClientEmit 0 Error, ClientEmit 0 Close]
       newService) ! 0) = [1]
   \<and> getSessionStatus ''cam'' (run [StartStream ''cam'' ''rtsp://host/1'' True, ProcSpawn 0,
       GetStreamData ''cam'', GetStreamData ''cam'', ClientEmit 0 Error, ClientEmit 0 Close]
       newService) =
     Some \<lparr>status_id = ''cam'', status_isActive = True, status_clientCount = 0,
           status_rtspUrl = ''rtsp://host/1''\<rparr>"
  by (simp add: ev getSessionStatus_def statusOf_def)

end
